theory Spec2Isabelle
  imports Main "HOL-Library.Word" "HOL-Library.Signed_Division" "HOL-Library.Log_Nat"
begin

section \<open>The rolling window of window.go\<close>

text \<open>
  The embedding follows \<^verbatim>\<open>src/window.go\<close>. Go's \<^verbatim>\<open>int64\<close>, \<^verbatim>\<open>int\<close> (on a 64-bit
  platform) and \<^verbatim>\<open>time.Duration\<close> are 64-bit words read as two's complement, so that
  the counters wrap as the code's do. A clock reading (\<^verbatim>\<open>time.Time\<close>) is an integer
  number of nanoseconds; every call of \<^verbatim>\<open>time.Now\<close> and \<^verbatim>\<open>time.Since\<close> in the source
  is a parameter of the model, so the clock is an input. A run-time panic is a value
  of type \<open>error\<close>. The mutex is not modelled: every operation is one atomic step.
\<close>

type_synonym int64 = "64 word"
type_synonym Duration = "64 word"
type_synonym Time = int

datatype error = DivideByZero | NilDereference | TypeAssertion

subsection \<open>bucket\<close>

record bucket =
  failure :: int64
  success :: int64

definition new_bucket :: bucket where
  "new_bucket = \<lparr>failure = 0, success = 0\<rparr>"

definition bucket_Reset :: "bucket \<Rightarrow> bucket" where
  "bucket_Reset b = b\<lparr>failure := 0, success := 0\<rparr>"

definition bucket_Fail :: "bucket \<Rightarrow> bucket" where
  "bucket_Fail b = b\<lparr>failure := failure b + 1\<rparr>"

definition bucket_Success :: "bucket \<Rightarrow> bucket" where
  "bucket_Success b = b\<lparr>success := success b + 1\<rparr>"

subsection \<open>container/ring of the Go standard library\<close>

text \<open>
  A \<^verbatim>\<open>*ring.Ring\<close> points at one element of a circular list. The model keeps the
  elements in the order of their \<^verbatim>\<open>next\<close> links, \<open>nodes\<close>, and the index \<open>cur\<close> of the
  element pointed at; the \<^verbatim>\<open>nil\<close> pointer is \<open>None\<close>. The \<^verbatim>\<open>Value\<close> of an element is an
  interface holding a \<^verbatim>\<open>*bucket\<close> or \<^verbatim>\<open>nil\<close>: \<open>Some b\<close> or \<open>None\<close>. Every element gets
  a bucket of its own in \<^verbatim>\<open>NewWindow\<close>, so a write through the pointer changes the
  bucket at that index only.
\<close>

record ring =
  nodes :: "bucket option list"
  cur :: nat

text \<open>\<^verbatim>\<open>ring.New(n)\<close>: \<^verbatim>\<open>nil\<close> when \<^verbatim>\<open>n <= 0\<close>, else \<open>n\<close> elements with \<^verbatim>\<open>nil\<close> values.\<close>

definition ring_New :: "int64 \<Rightarrow> ring option" where
  "ring_New n =
     (if sint n \<le> 0 then None
      else Some \<lparr>nodes = replicate (nat (sint n)) None, cur = 0\<rparr>)"

text \<open>\<^verbatim>\<open>r.Len()\<close>: the number of elements, 0 for the \<^verbatim>\<open>nil\<close> ring.\<close>

definition ring_Len :: "ring option \<Rightarrow> nat" where
  "ring_Len r = (case r of None \<Rightarrow> 0 | Some g \<Rightarrow> length (nodes g))"

text \<open>\<^verbatim>\<open>r.Next()\<close> on a ring that is not \<^verbatim>\<open>nil\<close>: one step forward, wrapping.\<close>

definition ring_Next :: "ring \<Rightarrow> ring" where
  "ring_Next g = g\<lparr>cur := (cur g + 1) mod length (nodes g)\<rparr>"

definition ring_Value :: "ring \<Rightarrow> bucket option" where
  "ring_Value g = nodes g ! cur g"

definition ring_set_Value :: "bucket option \<Rightarrow> ring \<Rightarrow> ring" where
  "ring_set_Value v g = g\<lparr>nodes := (nodes g)[cur g := v]\<rparr>"

text \<open>
  \<^verbatim>\<open>r.Do(f)\<close> calls \<open>f\<close> on the value of the element pointed at and then on each
  following element until it is back at the start; on the \<^verbatim>\<open>nil\<close> ring it does nothing.
  \<open>ring_order\<close> is the order of the visits. The callback of the model takes the value
  and the variables it captures (\<open>'a\<close>) and returns both, or the panic it raises.
\<close>

definition ring_order :: "ring \<Rightarrow> nat list" where
  "ring_order g = map (\<lambda>k. (cur g + k) mod length (nodes g)) [0..<length (nodes g)]"

fun do_loop ::
  "(bucket option \<Rightarrow> 'a \<Rightarrow> error + bucket option \<times> 'a) \<Rightarrow> nat list \<Rightarrow>
   bucket option list \<Rightarrow> 'a \<Rightarrow> error + bucket option list \<times> 'a" where
  "do_loop f [] ns a = Inr (ns, a)"
| "do_loop f (i # is) ns a =
     (case f (ns ! i) a of
        Inl e \<Rightarrow> Inl e
      | Inr (v, a') \<Rightarrow> do_loop f is (ns[i := v]) a')"

definition ring_Do ::
  "(bucket option \<Rightarrow> 'a \<Rightarrow> error + bucket option \<times> 'a) \<Rightarrow> ring option \<Rightarrow> 'a \<Rightarrow>
   error + ring option \<times> 'a" where
  "ring_Do f r a =
     (case r of
        None \<Rightarrow> Inr (None, a)
      | Some g \<Rightarrow>
          (case do_loop f (ring_order g) (nodes g) a of
             Inl e \<Rightarrow> Inl e
           | Inr (ns, a') \<Rightarrow> Inr (Some (g\<lparr>nodes := ns\<rparr>), a')))"

subsection \<open>time\<close>

text \<open>
  \<^verbatim>\<open>t.Sub(u)\<close> is the difference of two readings as a \<^verbatim>\<open>Duration\<close>, which saturates at the
  least and the greatest \<^verbatim>\<open>int64\<close>. \<^verbatim>\<open>time.Since(u)\<close> is \<^verbatim>\<open>time.Now().Sub(u)\<close>.
\<close>

definition time_Sub :: "Time \<Rightarrow> Time \<Rightarrow> Duration" where
  "time_Sub t u = word_of_int (max (- (2 ^ 63)) (min (2 ^ 63 - 1) (t - u)))"

definition time_Since :: "Time \<Rightarrow> Time \<Rightarrow> Duration" where
  "time_Since now u = time_Sub now u"

subsection \<open>window\<close>

record window =
  buckets :: "ring option"
  bucketTime :: Duration
  lastAccess :: Time

text \<open>
  The loop of \<^verbatim>\<open>NewWindow\<close>:
  \<^verbatim>\<open>for i := 0; i < buckets.Len(); i++ { buckets.Value = &bucket{}; buckets = buckets.Next() }\<close>
\<close>

function NewWindow_loop :: "nat \<Rightarrow> ring option \<Rightarrow> error + ring option" where
  "NewWindow_loop i r =
     (if i < ring_Len r then
        (case r of
           None \<Rightarrow> Inl NilDereference
         | Some g \<Rightarrow> NewWindow_loop (i + 1) (Some (ring_Next (ring_set_Value (Some new_bucket) g))))
      else Inr r)"
  by pat_completeness auto
termination
  by (relation "measure (\<lambda>(i, r). ring_Len r - i)")
    (auto simp: ring_Len_def ring_Next_def ring_set_Value_def)

declare NewWindow_loop.simps [simp del]

text \<open>
  \<^verbatim>\<open>NewWindow(windowTime, windowBuckets)\<close>; \<open>now\<close> is the reading of \<^verbatim>\<open>time.Now()\<close>.
  The division of two \<^verbatim>\<open>int64\<close> truncates towards zero and panics on a zero divisor.
\<close>

definition int64_div :: "int64 \<Rightarrow> int64 \<Rightarrow> error + int64" where
  "int64_div a b =
     (if b = 0 then Inl DivideByZero else Inr (word_of_int (sint a sdiv sint b)))"

definition NewWindow :: "Duration \<Rightarrow> int64 \<Rightarrow> Time \<Rightarrow> error + window" where
  "NewWindow windowTime windowBuckets now =
     (case NewWindow_loop 0 (ring_New windowBuckets) of
        Inl e \<Rightarrow> Inl e
      | Inr bs \<Rightarrow>
          (case int64_div windowTime windowBuckets of
             Inl e \<Rightarrow> Inl e
           | Inr bt \<Rightarrow> Inr \<lparr>buckets = bs, bucketTime = bt, lastAccess = now\<rparr>))"

text \<open>
  \<^verbatim>\<open>Fail\<close> and \<^verbatim>\<open>Success\<close>. \<open>tSince\<close> is the clock reading inside \<^verbatim>\<open>time.Since\<close>,
  \<open>tNow\<close> the later one of \<^verbatim>\<open>time.Now()\<close>. Reading \<^verbatim>\<open>w.buckets.Value\<close> through a
  \<^verbatim>\<open>nil\<close> ring panics, as does the type assertion on a \<^verbatim>\<open>nil\<close> value.
\<close>

definition Fail :: "Time \<Rightarrow> Time \<Rightarrow> window \<Rightarrow> error + window" where
  "Fail tSince tNow w =
     (case buckets w of
        None \<Rightarrow> Inl NilDereference
      | Some g \<Rightarrow>
          (case ring_Value g of
             None \<Rightarrow> Inl TypeAssertion
           | Some b \<Rightarrow>
               if bucketTime w <s time_Since tSince (lastAccess w) then
                 (let g' = ring_Next g in
                  case ring_Value g' of
                    None \<Rightarrow> Inl TypeAssertion
                  | Some b' \<Rightarrow>
                      Inr (w\<lparr>buckets := Some (ring_set_Value (Some (bucket_Fail (bucket_Reset b'))) g'),
                             lastAccess := tNow\<rparr>))
               else
                 Inr (w\<lparr>buckets := Some (ring_set_Value (Some (bucket_Fail b)) g),
                        lastAccess := tNow\<rparr>)))"

definition Success :: "Time \<Rightarrow> Time \<Rightarrow> window \<Rightarrow> error + window" where
  "Success tSince tNow w =
     (case buckets w of
        None \<Rightarrow> Inl NilDereference
      | Some g \<Rightarrow>
          (case ring_Value g of
             None \<Rightarrow> Inl TypeAssertion
           | Some b \<Rightarrow>
               if bucketTime w <s time_Since tSince (lastAccess w) then
                 (let g' = ring_Next g in
                  case ring_Value g' of
                    None \<Rightarrow> Inl TypeAssertion
                  | Some b' \<Rightarrow>
                      Inr (w\<lparr>buckets := Some (ring_set_Value (Some (bucket_Success (bucket_Reset b'))) g'),
                             lastAccess := tNow\<rparr>))
               else
                 Inr (w\<lparr>buckets := Some (ring_set_Value (Some (bucket_Success b)) g),
                        lastAccess := tNow\<rparr>)))"

text \<open>
  The reads and \<^verbatim>\<open>Reset\<close> go through \<^verbatim>\<open>Do\<close>. Each returns its result together with
  the window it leaves behind, so that what a call changes is part of the model.
\<close>

definition Failures :: "window \<Rightarrow> error + int64 \<times> window" where
  "Failures w =
     (case ring_Do (\<lambda>x failures. case x of
                       None \<Rightarrow> Inl TypeAssertion
                     | Some b \<Rightarrow> Inr (Some b, failures + failure b))
             (buckets w) 0 of
        Inl e \<Rightarrow> Inl e
      | Inr (r, failures) \<Rightarrow> Inr (failures, w\<lparr>buckets := r\<rparr>))"

definition Successes :: "window \<Rightarrow> error + int64 \<times> window" where
  "Successes w =
     (case ring_Do (\<lambda>x successes. case x of
                       None \<Rightarrow> Inl TypeAssertion
                     | Some b \<Rightarrow> Inr (Some b, successes + success b))
             (buckets w) 0 of
        Inl e \<Rightarrow> Inl e
      | Inr (r, successes) \<Rightarrow> Inr (successes, w\<lparr>buckets := r\<rparr>))"

subsection \<open>float64\<close>

text \<open>
  A \<^verbatim>\<open>float64\<close> is modelled by the rational number it denotes. Both the conversion
  \<^verbatim>\<open>float64(x)\<close> of an \<^verbatim>\<open>int64\<close> and the division round the exact result to the
  nearest number with a 53-bit significand, ties to the even significand (IEEE 754
  binary64). The magnitudes that occur here lie between \<open>2\<^sup>-\<^sup>6\<^sup>4\<close> and \<open>2\<^sup>6\<^sup>4\<close>,
  well inside the normal range, so neither infinities nor subnormal numbers arise;
  the two zeros are not distinguished.
\<close>

type_synonym float64 = rat

definition pow2 :: "int \<Rightarrow> rat" where
  "pow2 e = (if 0 \<le> e then 2 ^ nat e else 1 / 2 ^ nat (- e))"

text \<open>For \<open>x > 0\<close>, the exponent \<open>e\<close> with \<open>2\<^sup>e \<le> x < 2\<^sup>e\<^sup>+\<^sup>1\<close>.\<close>

definition floor_log2 :: "rat \<Rightarrow> int" where
  "floor_log2 x =
     (let (p, q) = quotient_of x; l = bitlen p - bitlen q
      in if pow2 l \<le> x then l else l - 1)"

definition round_to_even :: "rat \<Rightarrow> int" where
  "round_to_even x =
     (let n = \<lfloor>x\<rfloor>; d = x - of_int n
      in if d < 1 / 2 then n
         else if 1 / 2 < d then n + 1
         else if even n then n else n + 1)"

definition f64_round :: "rat \<Rightarrow> float64" where
  "f64_round x =
     (if x = 0 then 0
      else (let e = floor_log2 \<bar>x\<bar> - 52
            in of_int (round_to_even (x / pow2 e)) * pow2 e))"

definition f64_of_int64 :: "int64 \<Rightarrow> float64" where
  "f64_of_int64 x = f64_round (of_int (sint x))"

definition f64_div :: "float64 \<Rightarrow> float64 \<Rightarrow> float64" where
  "f64_div a b = f64_round (a / b)"

subsection \<open>ErrorRate and Reset\<close>

definition ErrorRate :: "window \<Rightarrow> error + float64 \<times> window" where
  "ErrorRate w =
     (case ring_Do (\<lambda>x (total', failures). case x of
                       None \<Rightarrow> Inl TypeAssertion
                     | Some b \<Rightarrow>
                         Inr (Some b, (total' + (failure b + success b), failures + failure b)))
             (buckets w) (0, 0) of
        Inl e \<Rightarrow> Inl e
      | Inr (r, (total', failures)) \<Rightarrow>
          Inr (if total' = 0 then 0
               else f64_div (f64_of_int64 failures) (f64_of_int64 total'),
               w\<lparr>buckets := r\<rparr>))"

definition Reset :: "window \<Rightarrow> error + window" where
  "Reset w =
     (case ring_Do (\<lambda>x (u :: unit). case x of
                       None \<Rightarrow> Inl TypeAssertion
                     | Some b \<Rightarrow> Inr (Some (bucket_Reset b), u))
             (buckets w) () of
        Inl e \<Rightarrow> Inl e
      | Inr (r, u) \<Rightarrow> Inr (w\<lparr>buckets := r\<rparr>))"

subsection \<open>Sequences of calls\<close>

text \<open>
  A caller's use of a window is a list of calls, each write with its two clock
  readings. \<open>apply_call\<close> gives the window a call leaves behind, \<open>run\<close> stops at the first
  panic.
\<close>

datatype call =
    CallFail Time Time
  | CallSuccess Time Time
  | CallFailures
  | CallSuccesses
  | CallErrorRate
  | CallReset

fun apply_call :: "call \<Rightarrow> window \<Rightarrow> error + window" where
  "apply_call (CallFail t1 t2) w = Fail t1 t2 w"
| "apply_call (CallSuccess t1 t2) w = Success t1 t2 w"
| "apply_call CallFailures w = map_sum id snd (Failures w)"
| "apply_call CallSuccesses w = map_sum id snd (Successes w)"
| "apply_call CallErrorRate w = map_sum id snd (ErrorRate w)"
| "apply_call CallReset w = Reset w"

fun run :: "call list \<Rightarrow> window \<Rightarrow> error + window" where
  "run [] w = Inr w"
| "run (c # cs) w = (case apply_call c w of Inl e \<Rightarrow> Inl e | Inr w' \<Rightarrow> run cs w')"

subsection \<open>Well-formed windows\<close>

text \<open>
  The fields of a window are private, so every window a caller holds comes from
  \<^verbatim>\<open>NewWindow\<close>: its pointer is inside the ring and every element holds a bucket.
  \<open>live\<close> windows have a ring; \<open>wf_window\<close> also admits the \<^verbatim>\<open>nil\<close> ring.
\<close>

definition wf_ring :: "ring \<Rightarrow> bool" where
  "wf_ring g \<longleftrightarrow> cur g < length (nodes g) \<and> list_all (\<lambda>v. v \<noteq> None) (nodes g)"

definition wf_window :: "window \<Rightarrow> bool" where
  "wf_window w = (case buckets w of None \<Rightarrow> True | Some g \<Rightarrow> wf_ring g)"

definition live :: "window \<Rightarrow> bool" where
  "live w = (case buckets w of None \<Rightarrow> False | Some g \<Rightarrow> wf_ring g)"

text \<open>The buckets of a window in the order of the ring's links, whatever the pointer.\<close>

definition all_buckets :: "window \<Rightarrow> bucket list" where
  "all_buckets w = (case buckets w of None \<Rightarrow> [] | Some g \<Rightarrow> map the (nodes g))"

text \<open>The bucket the window points at.\<close>

definition current :: "window \<Rightarrow> bucket option" where
  "current w = (case buckets w of None \<Rightarrow> None | Some g \<Rightarrow> ring_Value g)"

definition position :: "window \<Rightarrow> nat" where
  "position w = (case buckets w of None \<Rightarrow> 0 | Some g \<Rightarrow> cur g)"

subsection \<open>Writes within one bucket time\<close>

text \<open>
  A clock reading \<open>t\<close> lies in the span of length \<open>D\<close> that starts at \<open>L\<close> when it is not
  before \<open>L\<close> and less than \<open>D\<close> after it. A call is a write in the span when it is a
  \<^verbatim>\<open>Fail\<close> or a \<^verbatim>\<open>Success\<close> and both of its clock readings lie in the span.
\<close>

definition in_span :: "Time \<Rightarrow> Duration \<Rightarrow> Time \<Rightarrow> bool" where
  "in_span L D t \<longleftrightarrow> L \<le> t \<and> t - L < sint D"

fun write_in_span :: "Time \<Rightarrow> Duration \<Rightarrow> call \<Rightarrow> bool" where
  "write_in_span L D (CallFail t1 t2) = (in_span L D t1 \<and> in_span L D t2)"
| "write_in_span L D (CallSuccess t1 t2) = (in_span L D t1 \<and> in_span L D t2)"
| "write_in_span L D c = False"

fun is_CallFail :: "call \<Rightarrow> bool" where
  "is_CallFail (CallFail t1 t2) = True"
| "is_CallFail c = False"

fun is_CallSuccess :: "call \<Rightarrow> bool" where
  "is_CallSuccess (CallSuccess t1 t2) = True"
| "is_CallSuccess c = False"

subsection \<open>A window used as a concrete input\<close>

text \<open>
  Three buckets with the pointer at the last one, a bucket time of one second and the
  last access at five seconds: the window that \<^verbatim>\<open>NewWindow(3s, 3)\<close> at time 0 becomes
  after two failures and a success in the first 0.3 s, three successes between 1.4 s
  and 1.6 s, and a failure at 5 s (\<open>example_trace\<close>).
\<close>

definition example_window :: window where
  "example_window =
     \<lparr>buckets = Some \<lparr>nodes = [Some \<lparr>failure = 2, success = 1\<rparr>,
                                 Some \<lparr>failure = 0, success = 3\<rparr>,
                                 Some \<lparr>failure = 1, success = 0\<rparr>], cur = 2\<rparr>,
      bucketTime = 1000000000, lastAccess = 5000000000\<rparr>"

definition example_trace :: "call list" where
  "example_trace =
     [CallFail 100000000 100000000, CallFail 200000000 200000000,
      CallSuccess 300000000 300000000,
      CallSuccess 1400000000 1400000000, CallSuccess 1500000000 1500000000,
      CallSuccess 1600000000 1600000000,
      CallFail 5000000000 5000000000]"

text \<open>The window that \<^verbatim>\<open>NewWindow(2s, 2)\<close> returns at time 0.\<close>

definition fresh_window :: window where
  "fresh_window =
     \<lparr>buckets = Some \<lparr>nodes = [Some new_bucket, Some new_bucket], cur = 0\<rparr>,
      bucketTime = 1000000000, lastAccess = 0\<rparr>"

section \<open>Properties of the ring traversal\<close>

lemma ring_order_rotate: "ring_order g = rotate (cur g) [0..<length (nodes g)]"
proof (rule nth_equalityI)
  show "length (ring_order g) = length (rotate (cur g) [0..<length (nodes g)])"
    by (simp add: ring_order_def)
next
  fix i assume "i < length (ring_order g)"
  then have i: "i < length (nodes g)" by (simp add: ring_order_def)
  then have "0 < length (nodes g)" by linarith
  then have "(cur g + i) mod length (nodes g) < length (nodes g)" by (rule mod_less_divisor)
  then show "ring_order g ! i = rotate (cur g) [0..<length (nodes g)] ! i"
    using i by (simp add: ring_order_def nth_rotate)
qed

lemma distinct_ring_order: "distinct (ring_order g)"
  by (simp add: ring_order_rotate)

lemma set_ring_order: "set (ring_order g) = {0..<length (nodes g)}"
  by (simp add: ring_order_rotate)

lemma do_loop_visit:
  assumes f: "\<And>b a. f (Some b) a = Inr (Some (h b), k b a)"
  shows "distinct is \<Longrightarrow> \<forall>i\<in>set is. i < length ns \<and> ns ! i \<noteq> None \<Longrightarrow>
    \<exists>ns'. do_loop f is ns a = Inr (ns', fold (\<lambda>i. k (the (ns ! i))) is a) \<and>
      length ns' = length ns \<and>
      (\<forall>j<length ns. ns' ! j = (if j \<in> set is then map_option h (ns ! j) else ns ! j))"
proof (induction "is" arbitrary: ns a)
  case Nil
  then show ?case by simp
next
  case (Cons i "is")
  from Cons.prems obtain b where b: "ns ! i = Some b" and i: "i < length ns" by auto
  let ?ns = "ns[i := Some (h b)]"
  have d: "distinct is" and ni: "i \<notin> set is" using Cons.prems(1) by auto
  have pre: "\<forall>j\<in>set is. j < length ?ns \<and> ?ns ! j \<noteq> None"
    using Cons.prems(2) ni by (auto simp: nth_list_update)
  from Cons.IH [OF d pre, of "k b a"] obtain ns' where
    r: "do_loop f is ?ns (k b a) = Inr (ns', fold (\<lambda>i. k (the (?ns ! i))) is (k b a))"
    and l: "length ns' = length ?ns"
    and n: "\<forall>j<length ?ns. ns' ! j = (if j \<in> set is then map_option h (?ns ! j) else ?ns ! j)"
    by blast
  have fo: "fold (\<lambda>j. k (the (?ns ! j))) is (k b a) = fold (\<lambda>j. k (the (ns ! j))) is (k b a)"
  proof (intro fold_cong refl)
    fix j assume "j \<in> set is"
    with ni have "i \<noteq> j" by blast
    then show "k (the (?ns ! j)) = k (the (ns ! j))" by simp
  qed
  have "do_loop f (i # is) ns a = Inr (ns', fold (\<lambda>i. k (the (ns ! i))) (i # is) a)"
    using r fo b by (simp add: f)
  moreover have "length ns' = length ns" using l by simp
  moreover have "\<forall>j<length ns. ns' ! j = (if j \<in> set (i # is) then map_option h (ns ! j) else ns ! j)"
    using n ni b i by (auto simp: nth_list_update)
  ultimately show ?case by blast
qed

lemma ring_Do_visit:
  assumes f: "\<And>b a. f (Some b) a = Inr (Some (h b), k b a)"
    and ns: "list_all (\<lambda>v. v \<noteq> None) (nodes g)"
  shows "ring_Do f (Some g) a =
    Inr (Some (g\<lparr>nodes := map (map_option h) (nodes g)\<rparr>),
         fold (\<lambda>i. k (the (nodes g ! i))) (ring_order g) a)"
proof -
  have pre: "\<forall>i\<in>set (ring_order g). i < length (nodes g) \<and> nodes g ! i \<noteq> None"
    using ns by (auto simp: set_ring_order list_all_length)
  from do_loop_visit [of f h k, OF f distinct_ring_order pre, of a] obtain ns' where
    r: "do_loop f (ring_order g) (nodes g) a = Inr (ns', fold (\<lambda>i. k (the (nodes g ! i))) (ring_order g) a)"
    and l: "length ns' = length (nodes g)"
    and n: "\<forall>j<length (nodes g). ns' ! j =
        (if j \<in> set (ring_order g) then map_option h (nodes g ! j) else nodes g ! j)"
    by blast
  have "ns' = map (map_option h) (nodes g)"
    using l n by (intro nth_equalityI) (auto simp: set_ring_order)
  then show ?thesis using r by (simp add: ring_Do_def)
qed

lemma fold_add_sum_list:
  fixes a :: "'a :: comm_monoid_add"
  shows "fold (\<lambda>i s. s + F i) xs a = a + sum_list (map F xs)"
  by (induction xs arbitrary: a) (simp_all add: ac_simps)

lemma sum_list_ring_order:
  fixes F :: "nat \<Rightarrow> 'a :: comm_monoid_add"
  shows "sum_list (map F (ring_order g)) = sum_list (map F [0..<length (nodes g)])"
proof -
  have "sum_list (map F (ring_order g)) = sum F (set (ring_order g))"
    by (rule sum_list_distinct_conv_sum_set) (rule distinct_ring_order)
  also have "\<dots> = sum F (set [0..<length (nodes g)])" by (simp add: set_ring_order)
  also have "\<dots> = sum_list (map F [0..<length (nodes g)])"
    by (rule sum_list_distinct_conv_sum_set [symmetric]) simp
  finally show ?thesis .
qed

lemma sum_list_nodes:
  fixes G :: "bucket \<Rightarrow> 'a :: comm_monoid_add"
  shows "sum_list (map (\<lambda>i. G (the (nodes g ! i))) (ring_order g)) = sum_list (map G (map the (nodes g)))"
proof -
  have "map (\<lambda>i. G (the (nodes g ! i))) [0..<length (nodes g)] = map G (map the (nodes g))"
    by (rule nth_equalityI) simp_all
  then show ?thesis using sum_list_ring_order [of "\<lambda>i. G (the (nodes g ! i))" g] by simp
qed

lemma Failures_eq:
  assumes "wf_window w"
  shows "Failures w = Inr (sum_list (map failure (all_buckets w)), w)"
proof (cases "buckets w")
  case None
  then show ?thesis by (simp add: Failures_def ring_Do_def all_buckets_def)
next
  case (Some g)
  with assms have ns: "list_all (\<lambda>v. v \<noteq> None) (nodes g)"
    by (simp add: wf_window_def wf_ring_def)
  have "ring_Do (\<lambda>x failures. case x of None \<Rightarrow> Inl TypeAssertion
            | Some b \<Rightarrow> Inr (Some b, failures + failure b)) (Some g) 0 =
        Inr (Some (g\<lparr>nodes := map (map_option id) (nodes g)\<rparr>),
             fold (\<lambda>i s. s + failure (the (nodes g ! i))) (ring_order g) 0)"
    by (rule ring_Do_visit [where h = id and k = "\<lambda>b s. s + failure b", OF _ ns]) simp
  then show ?thesis using Some
    by (simp add: Failures_def all_buckets_def fold_add_sum_list sum_list_nodes option.map_id0)
qed

section \<open>What the reads and Reset compute\<close>

lemma Successes_eq:
  assumes "wf_window w"
  shows "Successes w = Inr (sum_list (map success (all_buckets w)), w)"
proof (cases "buckets w")
  case None
  then show ?thesis by (simp add: Successes_def ring_Do_def all_buckets_def)
next
  case (Some g)
  with assms have ns: "list_all (\<lambda>v. v \<noteq> None) (nodes g)"
    by (simp add: wf_window_def wf_ring_def)
  have "ring_Do (\<lambda>x successes. case x of None \<Rightarrow> Inl TypeAssertion
            | Some b \<Rightarrow> Inr (Some b, successes + success b)) (Some g) 0 =
        Inr (Some (g\<lparr>nodes := map (map_option id) (nodes g)\<rparr>),
             fold (\<lambda>i s. s + success (the (nodes g ! i))) (ring_order g) 0)"
    by (rule ring_Do_visit [where h = id and k = "\<lambda>b s. s + success b", OF _ ns]) simp
  then show ?thesis using Some
    by (simp add: Successes_def all_buckets_def fold_add_sum_list sum_list_nodes option.map_id0)
qed

lemma fold_total_failures:
  fixes A B :: "nat \<Rightarrow> int64"
  shows "fold (\<lambda>i (t, f). (t + (A i + B i), f + A i)) xs (t0, f0) =
    (t0 + (sum_list (map A xs) + sum_list (map B xs)), f0 + sum_list (map A xs))"
  by (induction xs arbitrary: t0 f0) (simp_all add: ac_simps)

lemma ErrorRate_eq:
  assumes "wf_window w"
  shows "ErrorRate w =
    Inr (let f = sum_list (map failure (all_buckets w));
             s = sum_list (map success (all_buckets w))
         in if f + s = 0 then 0 else f64_div (f64_of_int64 f) (f64_of_int64 (f + s)), w)"
proof (cases "buckets w")
  case None
  then show ?thesis by (simp add: ErrorRate_def ring_Do_def all_buckets_def)
next
  case (Some g)
  with assms have ns: "list_all (\<lambda>v. v \<noteq> None) (nodes g)"
    by (simp add: wf_window_def wf_ring_def)
  let ?k = "\<lambda>b (t, f). (t + (failure b + success b), f + failure b)"
  have "ring_Do (\<lambda>x (total', failures). case x of None \<Rightarrow> Inl TypeAssertion
            | Some b \<Rightarrow> Inr (Some b, (total' + (failure b + success b), failures + failure b)))
          (Some g) (0, 0) =
        Inr (Some (g\<lparr>nodes := map (map_option id) (nodes g)\<rparr>),
             fold (\<lambda>i. ?k (the (nodes g ! i))) (ring_order g) (0, 0))"
    by (rule ring_Do_visit [where h = id and k = ?k, OF _ ns]) (simp add: split_def)
  moreover have "fold (\<lambda>i. ?k (the (nodes g ! i))) (ring_order g) (0, 0) =
      (sum_list (map failure (map the (nodes g))) + sum_list (map success (map the (nodes g))),
       sum_list (map failure (map the (nodes g))))"
    using fold_total_failures [of "\<lambda>i. failure (the (nodes g ! i))" "\<lambda>i. success (the (nodes g ! i))"
        "ring_order g" 0 0]
      sum_list_nodes [of failure g] sum_list_nodes [of success g]
    by simp
  ultimately show ?thesis using Some
    by (simp add: ErrorRate_def all_buckets_def option.map_id0 Let_def)
qed

lemma Reset_eq:
  assumes "wf_window w"
  shows "Reset w = Inr (w\<lparr>buckets := map_option (\<lambda>g. g\<lparr>nodes := map (map_option bucket_Reset) (nodes g)\<rparr>) (buckets w)\<rparr>)"
proof (cases "buckets w")
  case None
  then show ?thesis by (simp add: Reset_def ring_Do_def)
next
  case (Some g)
  with assms have ns: "list_all (\<lambda>v. v \<noteq> None) (nodes g)"
    by (simp add: wf_window_def wf_ring_def)
  have "ring_Do (\<lambda>x (u :: unit). case x of None \<Rightarrow> Inl TypeAssertion
            | Some b \<Rightarrow> Inr (Some (bucket_Reset b), u)) (Some g) () =
        Inr (Some (g\<lparr>nodes := map (map_option bucket_Reset) (nodes g)\<rparr>),
             fold (\<lambda>i. (\<lambda>b u. u) (the (nodes g ! i))) (ring_order g) ())"
    by (rule ring_Do_visit [where h = bucket_Reset and k = "\<lambda>b u. u", OF _ ns]) simp
  then show ?thesis using Some by (simp add: Reset_def)
qed

section \<open>Writes, construction and well-formedness\<close>

lemma wf_ring_Value:
  assumes "wf_ring g"
  shows "ring_Value g = Some (the (nodes g ! cur g))"
proof -
  from assms have "cur g < length (nodes g)" and "list_all (\<lambda>v. v \<noteq> None) (nodes g)"
    by (simp_all add: wf_ring_def)
  then have "nodes g ! cur g \<noteq> None" by (simp add: list_all_length)
  then show ?thesis by (auto simp: ring_Value_def)
qed

lemma wf_ring_Next:
  assumes "wf_ring g"
  shows "wf_ring (ring_Next g)"
proof -
  from assms have "cur g < length (nodes g)" by (simp add: wf_ring_def)
  then have "0 < length (nodes g)" by linarith
  then have "(cur g + 1) mod length (nodes g) < length (nodes g)" by (rule mod_less_divisor)
  then show ?thesis using assms by (simp add: wf_ring_def ring_Next_def)
qed

lemma bucket_Fail_Reset: "bucket_Fail (bucket_Reset b) = \<lparr>failure = 1, success = 0\<rparr>"
  by (cases b) (simp add: bucket_Fail_def bucket_Reset_def)

lemma bucket_Success_Reset: "bucket_Success (bucket_Reset b) = \<lparr>failure = 0, success = 1\<rparr>"
  by (cases b) (simp add: bucket_Success_def bucket_Reset_def)

lemma wf_ring_set_Value: "wf_ring g \<Longrightarrow> wf_ring (ring_set_Value (Some b) g)"
  by (auto simp: wf_ring_def ring_set_Value_def list_all_length nth_list_update)

lemma Fail_eq:
  assumes g: "buckets w = Some g" and wf: "wf_ring g"
  shows "Fail t1 t2 w =
    Inr (w\<lparr>buckets := Some
            (if bucketTime w <s time_Since t1 (lastAccess w)
             then ring_set_Value (Some \<lparr>failure = 1, success = 0\<rparr>) (ring_Next g)
             else ring_set_Value (Some (bucket_Fail (the (nodes g ! cur g)))) g),
          lastAccess := t2\<rparr>)"
  using g wf_ring_Value [OF wf] wf_ring_Value [OF wf_ring_Next [OF wf]]
  by (simp add: Fail_def Let_def bucket_Fail_Reset)

lemma Success_eq:
  assumes g: "buckets w = Some g" and wf: "wf_ring g"
  shows "Success t1 t2 w =
    Inr (w\<lparr>buckets := Some
            (if bucketTime w <s time_Since t1 (lastAccess w)
             then ring_set_Value (Some \<lparr>failure = 0, success = 1\<rparr>) (ring_Next g)
             else ring_set_Value (Some (bucket_Success (the (nodes g ! cur g)))) g),
          lastAccess := t2\<rparr>)"
  using g wf_ring_Value [OF wf] wf_ring_Value [OF wf_ring_Next [OF wf]]
  by (simp add: Success_def Let_def bucket_Success_Reset)

lemma live_Some: "live w \<longleftrightarrow> (\<exists>g. buckets w = Some g \<and> wf_ring g)"
  by (simp add: live_def split: option.splits)

lemma live_wf_window: "live w \<Longrightarrow> wf_window w"
  by (simp add: live_def wf_window_def split: option.splits)

lemma Fail_live:
  assumes "live w"
  shows "\<exists>w'. Fail t1 t2 w = Inr w' \<and> live w'"
proof -
  from assms obtain g where g: "buckets w = Some g" and wf: "wf_ring g"
    by (auto simp: live_Some)
  show ?thesis
    unfolding Fail_eq [OF g wf]
    by (simp add: live_def wf_ring_set_Value wf_ring_Next wf)
qed

lemma Success_live:
  assumes "live w"
  shows "\<exists>w'. Success t1 t2 w = Inr w' \<and> live w'"
proof -
  from assms obtain g where g: "buckets w = Some g" and wf: "wf_ring g"
    by (auto simp: live_Some)
  show ?thesis
    unfolding Success_eq [OF g wf]
    by (simp add: live_def wf_ring_set_Value wf_ring_Next wf)
qed

lemma Reset_live:
  assumes "live w"
  shows "\<exists>w'. Reset w = Inr w' \<and> live w'"
proof -
  from assms obtain g where g: "buckets w = Some g" and wf: "wf_ring g"
    by (auto simp: live_Some)
  have "wf_ring (g\<lparr>nodes := map (map_option bucket_Reset) (nodes g)\<rparr>)"
    using wf by (auto simp: wf_ring_def list_all_length)
  then show ?thesis
    using g by (simp add: Reset_eq [OF live_wf_window [OF assms]] live_def)
qed

lemma apply_call_live:
  assumes "live w"
  shows "\<exists>w'. apply_call c w = Inr w' \<and> live w'"
proof (cases c)
  case (CallFail t1 t2)
  then show ?thesis using Fail_live [OF assms] by simp
next
  case (CallSuccess t1 t2)
  then show ?thesis using Success_live [OF assms] by simp
next
  case CallFailures
  then show ?thesis using assms by (simp add: Failures_eq [OF live_wf_window [OF assms]])
next
  case CallSuccesses
  then show ?thesis using assms by (simp add: Successes_eq [OF live_wf_window [OF assms]])
next
  case CallErrorRate
  then show ?thesis using assms by (simp add: ErrorRate_eq [OF live_wf_window [OF assms]])
next
  case CallReset
  then show ?thesis using Reset_live [OF assms] by simp
qed

lemma run_live: "live w \<Longrightarrow> \<exists>w'. run cs w = Inr w' \<and> live w'"
proof (induction cs arbitrary: w)
  case Nil
  then show ?case by simp
next
  case (Cons c cs)
  from apply_call_live [OF Cons.prems, of c] obtain w1 where
    w1: "apply_call c w = Inr w1" and l1: "live w1" by blast
  from Cons.IH [OF l1] show ?case using w1 by simp
qed

lemma replicate_fill:
  assumes "i < n"
  shows "(replicate i a @ replicate (n - i) b)[i := a] = replicate (Suc i) a @ replicate (n - Suc i) b"
proof -
  from assms have "replicate (n - i) b = b # replicate (n - Suc i) b"
    by (metis Suc_diff_Suc replicate_Suc)
  then show ?thesis by (simp add: list_update_append replicate_append_same)
qed

lemma NewWindow_loop_fill:
  assumes "i \<le> n" and "0 < n"
    and "nodes g = replicate i (Some new_bucket) @ replicate (n - i) None"
    and "cur g = i mod n"
  shows "NewWindow_loop i (Some g) = Inr (Some \<lparr>nodes = replicate n (Some new_bucket), cur = 0\<rparr>)"
  using assms
proof (induction "n - i" arbitrary: i g)
  case 0
  then have "i = n" by simp
  with 0 have "g = \<lparr>nodes = replicate n (Some new_bucket), cur = 0\<rparr>" by simp
  moreover have "ring_Len (Some g) = n" using 0 \<open>i = n\<close> by (simp add: ring_Len_def)
  ultimately show ?case using \<open>i = n\<close> by (subst NewWindow_loop.simps) simp
next
  case (Suc k)
  then have i: "i < n" by simp
  let ?g = "ring_Next (ring_set_Value (Some new_bucket) g)"
  have len: "ring_Len (Some g) = n" using Suc.prems i by (simp add: ring_Len_def)
  have c: "cur g = i" using Suc.prems i by simp
  have n1: "nodes ?g = replicate (Suc i) (Some new_bucket) @ replicate (n - Suc i) None"
    using Suc.prems c replicate_fill [OF i] by (simp add: ring_Next_def ring_set_Value_def)
  have c1: "cur ?g = Suc i mod n"
    using Suc.prems c by (simp add: ring_Next_def ring_set_Value_def)
  have "NewWindow_loop (Suc i) (Some ?g) = Inr (Some \<lparr>nodes = replicate n (Some new_bucket), cur = 0\<rparr>)"
    using Suc.hyps(2) i Suc.prems(2) n1 c1 by (intro Suc.hyps(1)) simp_all
  then show ?case using len i by (subst NewWindow_loop.simps) simp
qed

lemma NewWindow_loop_New:
  assumes "0 < sint n"
  shows "NewWindow_loop 0 (ring_New n) =
    Inr (Some \<lparr>nodes = replicate (nat (sint n)) (Some new_bucket), cur = 0\<rparr>)"
proof -
  have "NewWindow_loop 0 (Some \<lparr>nodes = replicate (nat (sint n)) None, cur = 0\<rparr>) =
    Inr (Some \<lparr>nodes = replicate (nat (sint n)) (Some new_bucket), cur = 0\<rparr>)"
    using assms by (intro NewWindow_loop_fill) simp_all
  then show ?thesis using assms by (simp add: ring_New_def)
qed

lemma NewWindow_loop_nil: "NewWindow_loop 0 None = Inr None"
  by (subst NewWindow_loop.simps) (simp add: ring_Len_def)

lemma NewWindow_pos:
  assumes "0 < sint n"
  shows "NewWindow wt n now =
    Inr \<lparr>buckets = Some \<lparr>nodes = replicate (nat (sint n)) (Some new_bucket), cur = 0\<rparr>,
         bucketTime = word_of_int (sint wt sdiv sint n), lastAccess = now\<rparr>"
proof -
  from assms have "n \<noteq> 0" by auto
  then show ?thesis
    by (simp add: NewWindow_def NewWindow_loop_New [OF assms] int64_div_def)
qed

lemma NewWindow_zero: "NewWindow wt 0 now = Inl DivideByZero"
  by (simp add: NewWindow_def ring_New_def NewWindow_loop_nil int64_div_def)

lemma NewWindow_neg:
  assumes "sint n < 0"
  shows "NewWindow wt n now =
    Inr \<lparr>buckets = None, bucketTime = word_of_int (sint wt sdiv sint n), lastAccess = now\<rparr>"
proof -
  from assms have "n \<noteq> 0" by auto
  then show ?thesis using assms
    by (simp add: NewWindow_def ring_New_def NewWindow_loop_nil int64_div_def)
qed

lemma NewWindow_live:
  assumes "0 < sint n"
  shows "\<exists>w. NewWindow wt n now = Inr w \<and> live w"
  using assms by (simp add: NewWindow_pos live_def wf_ring_def list_all_length)

subsection \<open>The example window and elapsed time\<close>

lemma example_window_reachable:
  "(case NewWindow 3000000000 3 0 of Inl e \<Rightarrow> Inl e | Inr w \<Rightarrow> run example_trace w) =
   Inr example_window"
  by code_simp

lemma live_example_window: "live example_window"
  by (simp add: example_window_def live_def wf_ring_def)

lemma sint_time_Sub:
  "sint (time_Sub t u) = max (- (2 ^ 63)) (min (2 ^ 63 - 1) (t - u))"
proof -
  let ?d = "max (- (2 ^ 63)) (min (2 ^ 63 - 1) (t - u)) :: int"
  have "- (2 ^ 63) \<le> ?d" and "?d < 2 ^ 63" by simp_all
  then have "signed_take_bit 63 ?d = ?d" by (rule signed_take_bit_int_eq_self)
  then show ?thesis by (simp add: time_Sub_def signed_of_int)
qed

section \<open>Reset\<close>

lemma bucket_Reset_new: "bucket_Reset b = new_bucket"
  by (cases b) (simp add: bucket_Reset_def new_bucket_def)

lemma all_buckets_Reset:
  assumes "wf_window w" and "Reset w = Inr w'"
  shows "all_buckets w' = map (\<lambda>b. new_bucket) (all_buckets w)"
proof (cases "buckets w")
  case None
  then show ?thesis using assms by (auto simp: Reset_eq all_buckets_def)
next
  case (Some g)
  with assms(1) have "list_all (\<lambda>v. v \<noteq> None) (nodes g)"
    by (simp add: wf_window_def wf_ring_def)
  then have "map the (map (map_option bucket_Reset) (nodes g)) = map (\<lambda>b. new_bucket) (map the (nodes g))"
    by (intro nth_equalityI) (auto simp: list_all_length bucket_Reset_new)
  then show ?thesis using assms Some by (auto simp: Reset_eq all_buckets_def)
qed

lemma wf_window_Reset:
  assumes "wf_window w" and "Reset w = Inr w'"
  shows "wf_window w'"
proof (cases "buckets w")
  case None
  then show ?thesis using assms by (auto simp: Reset_eq wf_window_def)
next
  case (Some g)
  with assms(1) have "wf_ring g" by (simp add: wf_window_def)
  then have "wf_ring (g\<lparr>nodes := map (map_option bucket_Reset) (nodes g)\<rparr>)"
    by (auto simp: wf_ring_def list_all_length)
  then show ?thesis using assms Some by (auto simp: Reset_eq wf_window_def)
qed

lemma sum_list_new_bucket:
  "sum_list (map (failure \<circ> (\<lambda>b. new_bucket)) xs) = 0"
  "sum_list (map (success \<circ> (\<lambda>b. new_bucket)) xs) = 0"
  by (induction xs) (simp_all add: new_bucket_def)

text \<open>
  C7. On every well-formed window \<^verbatim>\<open>Reset\<close> returns normally, sets both counters of
  every bucket of the ring to zero and leaves \<open>lastAccess\<close>, the pointer and the bucket
  time as they were; \<^verbatim>\<open>Failures\<close>, \<^verbatim>\<open>Successes\<close> and \<^verbatim>\<open>ErrorRate\<close> called right after
  it return zero.
\<close>

theorem Reset_zeroes_every_bucket:
  assumes "wf_window w"
  shows "\<exists>w'. Reset w = Inr w' \<and>
    all_buckets w' = map (\<lambda>b. new_bucket) (all_buckets w) \<and>
    lastAccess w' = lastAccess w \<and> position w' = position w \<and>
    bucketTime w' = bucketTime w \<and>
    Failures w' = Inr (0, w') \<and> Successes w' = Inr (0, w') \<and> ErrorRate w' = Inr (0, w')"
proof -
  obtain w' where r: "Reset w = Inr w'" by (simp add: Reset_eq [OF assms])
  have ab: "all_buckets w' = map (\<lambda>b. new_bucket) (all_buckets w)"
    by (rule all_buckets_Reset [OF assms r])
  have wf': "wf_window w'" by (rule wf_window_Reset [OF assms r])
  have fr: "lastAccess w' = lastAccess w \<and> position w' = position w \<and> bucketTime w' = bucketTime w"
    using r by (auto simp: Reset_eq [OF assms] position_def split: option.splits)
  have "Failures w' = Inr (0, w')"
    by (simp add: Failures_eq [OF wf'] ab sum_list_new_bucket)
  moreover have "Successes w' = Inr (0, w')"
    by (simp add: Successes_eq [OF wf'] ab sum_list_new_bucket)
  moreover have "ErrorRate w' = Inr (0, w')"
    by (simp add: ErrorRate_eq [OF wf'] ab sum_list_new_bucket)
  ultimately show ?thesis using r ab fr by blast
qed

text \<open>The theorem at the example window, whose pointer is at index 2.\<close>

theorem Reset_zeroes_every_bucket_witness:
  "wf_window example_window \<and>
   Reset example_window =
     Inr \<lparr>buckets = Some \<lparr>nodes = [Some new_bucket, Some new_bucket, Some new_bucket], cur = 2\<rparr>,
          bucketTime = 1000000000, lastAccess = 5000000000\<rparr> \<and>
   (\<exists>w'. Reset example_window = Inr w' \<and> position w' = 2 \<and> lastAccess w' = 5000000000 \<and>
      Failures w' = Inr (0, w') \<and> Successes w' = Inr (0, w') \<and> ErrorRate w' = Inr (0, w'))"
proof -
  have h: "wf_window example_window"
    by (simp add: example_window_def wf_window_def wf_ring_def)
  have p: "position example_window = 2" "lastAccess example_window = 5000000000"
    by (simp_all add: example_window_def position_def)
  have r: "Reset example_window =
     Inr \<lparr>buckets = Some \<lparr>nodes = [Some new_bucket, Some new_bucket, Some new_bucket], cur = 2\<rparr>,
          bucketTime = 1000000000, lastAccess = 5000000000\<rparr>"
    by (simp add: Reset_eq [OF h]) (simp add: example_window_def bucket_Reset_new)
  show ?thesis using h r p Reset_zeroes_every_bucket [OF h] by auto
qed

section \<open>The reads\<close>



section \<open>The writes\<close>

lemma view_write:
  fixes w :: window and b :: bucket and t :: Time
  assumes "wf_ring g"
  defines "w' \<equiv> w\<lparr>buckets := Some (ring_set_Value (Some b) g), lastAccess := t\<rparr>"
  shows "position w' = cur g" and "all_buckets w' = (map the (nodes g))[cur g := b]"
    and "current w' = Some b" and "lastAccess w' = t" and "bucketTime w' = bucketTime w"
    and "live w'"
  using assms wf_ring_set_Value [of g b]
  by (simp_all add: position_def all_buckets_def current_def ring_set_Value_def ring_Value_def
      map_update wf_ring_def live_def)

lemma view_live:
  assumes "buckets w = Some g"
  shows "position w = cur g" and "all_buckets w = map the (nodes g)"
    and "current w = ring_Value g"
  using assms by (simp_all add: position_def all_buckets_def current_def)

lemma ring_Next_fields [simp]:
  "nodes (ring_Next g) = nodes g" "cur (ring_Next g) = (cur g + 1) mod length (nodes g)"
  by (simp_all add: ring_Next_def)

lemma write_step:
  assumes "live w" and "c = CallFail t1 t2 \<or> c = CallSuccess t1 t2"
  shows "\<exists>w'. apply_call c w = Inr w' \<and> live w' \<and>
    length (all_buckets w') = length (all_buckets w) \<and>
    (position w' = position w \<or> position w' = (position w + 1) mod length (all_buckets w)) \<and>
    (\<forall>i<length (all_buckets w). i \<noteq> position w' \<longrightarrow> all_buckets w' ! i = all_buckets w ! i)"
proof -
  from assms(1) obtain g where g: "buckets w = Some g" and wf: "wf_ring g"
    by (auto simp: live_Some)
  note wfn = wf_ring_Next [OF wf]
  note v = view_live [OF g]
  from assms(2) show ?thesis
  proof
    assume c: "c = CallFail t1 t2"
    show ?thesis
      unfolding c apply_call.simps Fail_eq [OF g wf]
      by (cases "bucketTime w <s time_Since t1 (lastAccess w)")
        (simp_all add: view_write [OF wf] view_write [OF wfn] v)
  next
    assume c: "c = CallSuccess t1 t2"
    show ?thesis
      unfolding c apply_call.simps Success_eq [OF g wf]
      by (cases "bucketTime w <s time_Since t1 (lastAccess w)")
        (simp_all add: view_write [OF wf] view_write [OF wfn] v)
  qed
qed

text \<open>
  C2. A write (\<^verbatim>\<open>Fail\<close> or \<^verbatim>\<open>Success\<close>) on a window with a ring, at any clock reading
  \<open>t1\<close> and so after any idle time, returns normally; the pointer stays or moves one
  step forward (wrapping), and every bucket other than the one then pointed at holds
  what it held before. So at most one bucket is reset, and the stale buckets are still
  part of the sums that \<^verbatim>\<open>Failures\<close> and \<^verbatim>\<open>Successes\<close> return after the write.
\<close>

theorem single_step_rotation:
  assumes "live w" and "c = CallFail t1 t2 \<or> c = CallSuccess t1 t2"
  shows "\<exists>w'. apply_call c w = Inr w' \<and>
    length (all_buckets w') = length (all_buckets w) \<and>
    (position w' = position w \<or> position w' = (position w + 1) mod length (all_buckets w)) \<and>
    (\<forall>i<length (all_buckets w). i \<noteq> position w' \<longrightarrow> all_buckets w' ! i = all_buckets w ! i) \<and>
    Failures w' = Inr (sum_list (map failure (all_buckets w')), w') \<and>
    Successes w' = Inr (sum_list (map success (all_buckets w')), w')"
proof -
  from write_step [OF assms] obtain w' where
    r: "apply_call c w = Inr w'" and l: "live w'"
    and rest: "length (all_buckets w') = length (all_buckets w)"
      "position w' = position w \<or> position w' = (position w + 1) mod length (all_buckets w)"
      "\<forall>i<length (all_buckets w). i \<noteq> position w' \<longrightarrow> all_buckets w' ! i = all_buckets w ! i"
    by blast
  note wf' = live_wf_window [OF l]
  show ?thesis
    using r rest Failures_eq [OF wf'] Successes_eq [OF wf'] by blast
qed

text \<open>
  The theorem at the example window, written to 100 s after its last access (a
  hundred bucket times): the pointer goes from index 2 to index 0 only, and the three
  successes of the bucket at index 1, recorded before 1.6 s, are still counted.
\<close>

theorem single_step_rotation_witness:
  "live example_window \<and>
   apply_call (CallFail 105000000000 105000000000) example_window =
     Inr \<lparr>buckets = Some \<lparr>nodes = [Some \<lparr>failure = 1, success = 0\<rparr>,
                                   Some \<lparr>failure = 0, success = 3\<rparr>,
                                   Some \<lparr>failure = 1, success = 0\<rparr>], cur = 0\<rparr>,
          bucketTime = 1000000000, lastAccess = 105000000000\<rparr> \<and>
   (\<exists>w'. apply_call (CallFail 105000000000 105000000000) example_window = Inr w' \<and>
      all_buckets w' ! 1 = all_buckets example_window ! 1 \<and>
      all_buckets w' ! 2 = all_buckets example_window ! 2 \<and>
      Successes w' = Inr (3, w'))"
proof -
  have h: "live example_window" by (rule live_example_window)
  have e: "apply_call (CallFail 105000000000 105000000000) example_window =
     Inr \<lparr>buckets = Some \<lparr>nodes = [Some \<lparr>failure = 1, success = 0\<rparr>,
                                   Some \<lparr>failure = 0, success = 3\<rparr>,
                                   Some \<lparr>failure = 1, success = 0\<rparr>], cur = 0\<rparr>,
          bucketTime = 1000000000, lastAccess = 105000000000\<rparr>"
    by code_simp
  from single_step_rotation [OF h, of "CallFail 105000000000 105000000000" 105000000000 105000000000]
  obtain w' where
    r: "apply_call (CallFail 105000000000 105000000000) example_window = Inr w'"
    and s: "Successes w' = Inr (sum_list (map success (all_buckets w')), w')"
    by blast
  from r e have w': "w' = \<lparr>buckets = Some \<lparr>nodes = [Some \<lparr>failure = 1, success = 0\<rparr>,
                                   Some \<lparr>failure = 0, success = 3\<rparr>,
                                   Some \<lparr>failure = 1, success = 0\<rparr>], cur = 0\<rparr>,
          bucketTime = 1000000000, lastAccess = 105000000000\<rparr>" by simp
  have "all_buckets w' ! 1 = all_buckets example_window ! 1"
    "all_buckets w' ! 2 = all_buckets example_window ! 2"
    "sum_list (map success (all_buckets w')) = 3"
    unfolding w' by (simp_all add: all_buckets_def example_window_def)
  with h e r s show ?thesis by auto
qed

subsection \<open>The rotation decision\<close>

lemma sum_list_map_update:
  fixes F :: "'a \<Rightarrow> 'b :: ab_group_add"
  shows "k < length xs \<Longrightarrow>
    sum_list (map F (xs[k := y])) = sum_list (map F xs) + (F y - F (xs ! k))"
proof (induction xs arbitrary: k)
  case Nil
  then show ?case by simp
next
  case (Cons x xs)
  then show ?case by (cases k) (simp_all add: algebra_simps)
qed

lemma current_live:
  assumes "buckets w = Some g" and "wf_ring g"
  shows "current w = Some (the (nodes g ! cur g))"
  using assms wf_ring_Value [of g] by (simp add: current_def)

lemma write_outcome:
  assumes "live w"
  shows "(\<exists>w'. Fail t1 t2 w = Inr w' \<and> lastAccess w' = t2 \<and>
      (if bucketTime w <s time_Since t1 (lastAccess w)
       then position w' = (position w + 1) mod length (all_buckets w) \<and>
            current w' = Some \<lparr>failure = 1, success = 0\<rparr>
       else position w' = position w \<and> current w' = map_option bucket_Fail (current w))) \<and>
    (\<exists>w'. Success t1 t2 w = Inr w' \<and> lastAccess w' = t2 \<and>
      (if bucketTime w <s time_Since t1 (lastAccess w)
       then position w' = (position w + 1) mod length (all_buckets w) \<and>
            current w' = Some \<lparr>failure = 0, success = 1\<rparr>
       else position w' = position w \<and> current w' = map_option bucket_Success (current w)))"
proof -
  from assms obtain g where g: "buckets w = Some g" and wf: "wf_ring g"
    by (auto simp: live_Some)
  note wfn = wf_ring_Next [OF wf]
  note v = view_live(1,2) [OF g] current_live [OF g wf]
  show ?thesis
    unfolding Fail_eq [OF g wf] Success_eq [OF g wf]
    by (cases "bucketTime w <s time_Since t1 (lastAccess w)")
      (simp_all add: view_write [OF wf] view_write [OF wfn] v)
qed

text \<open>
  C3, as amended. The elapsed time of a write is \<open>time_Since t1 (lastAccess w)\<close>. A
  write on a window with a ring rotates exactly when the elapsed time is greater than
  the bucket time: then the pointer moves one step forward (wrapping) and the bucket
  pointed at afterwards holds the one event just recorded. When the elapsed time is
  less than or equal to the bucket time the pointer stays and the event is added to
  the current bucket.
\<close>

theorem rotation_needs_more_than_bucketTime:
  assumes "live w"
  shows "(\<exists>w'. Fail t1 t2 w = Inr w' \<and>
      (if sint (bucketTime w) < sint (time_Since t1 (lastAccess w))
       then position w' = (position w + 1) mod length (all_buckets w) \<and>
            current w' = Some \<lparr>failure = 1, success = 0\<rparr>
       else position w' = position w \<and> current w' = map_option bucket_Fail (current w))) \<and>
    (\<exists>w'. Success t1 t2 w = Inr w' \<and>
      (if sint (bucketTime w) < sint (time_Since t1 (lastAccess w))
       then position w' = (position w + 1) mod length (all_buckets w) \<and>
            current w' = Some \<lparr>failure = 0, success = 1\<rparr>
       else position w' = position w \<and> current w' = map_option bucket_Success (current w)))"
  using write_outcome [OF assms, of t1 t2] unfolding word_sless_alt by blast

text \<open>
  C3 as stated fails: the example window has a bucket time of 1 s and was last
  accessed at 5 s; a \<^verbatim>\<open>Fail\<close> at 6 s, when the elapsed time equals the bucket time,
  leaves the pointer at index 2 and adds to the bucket there, which is not reset.
\<close>

theorem rotation_at_equal_elapsed_counterexample:
  "sint (time_Since 6000000000 (lastAccess example_window)) = sint (bucketTime example_window) \<and>
   Fail 6000000000 6000000000 example_window =
     Inr \<lparr>buckets = Some \<lparr>nodes = [Some \<lparr>failure = 2, success = 1\<rparr>,
                                   Some \<lparr>failure = 0, success = 3\<rparr>,
                                   Some \<lparr>failure = 2, success = 0\<rparr>], cur = 2\<rparr>,
          bucketTime = 1000000000, lastAccess = 6000000000\<rparr>"
  by code_simp

text \<open>
  The amended statement at the example window: no rotation at 6 s, a rotation from
  index 2 to index 0 one nanosecond later.
\<close>

theorem rotation_needs_more_than_bucketTime_witness:
  "live example_window \<and>
   sint (time_Since 6000000000 (lastAccess example_window)) = sint (bucketTime example_window) \<and>
   (\<exists>w'. Fail 6000000000 6000000000 example_window = Inr w' \<and> position w' = 2 \<and>
      current w' = Some \<lparr>failure = 2, success = 0\<rparr>) \<and>
   (\<exists>w'. Fail 6000000001 6000000001 example_window = Inr w' \<and> position w' = 0 \<and>
      current w' = Some \<lparr>failure = 1, success = 0\<rparr>)"
proof -
  have h: "live example_window" by (rule live_example_window)
  have e: "sint (time_Since 6000000000 (lastAccess example_window)) = 1000000000"
    "sint (time_Since 6000000001 (lastAccess example_window)) = 1000000001"
    "sint (bucketTime example_window) = 1000000000"
    by (simp_all add: time_Since_def sint_time_Sub example_window_def)
  have p: "position example_window = 2" "length (all_buckets example_window) = 3"
    "map_option bucket_Fail (current example_window) = Some \<lparr>failure = 2, success = 0\<rparr>"
    by (simp_all add: example_window_def position_def all_buckets_def current_def ring_Value_def
        bucket_Fail_def)
  show ?thesis
    using h rotation_needs_more_than_bucketTime [OF h, of 6000000000 6000000000]
      rotation_needs_more_than_bucketTime [OF h, of 6000000001 6000000001]
    unfolding e p by auto
qed

lemma rotating_write:
  assumes l: "live w" and r: "bucketTime w <s time_Since t1 (lastAccess w)"
    and c: "c = CallFail t1 t2 \<and> b = \<lparr>failure = 1, success = 0\<rparr> \<or>
            c = CallSuccess t1 t2 \<and> b = \<lparr>failure = 0, success = 1\<rparr>"
  shows "\<exists>w'. apply_call c w = Inr w' \<and> live w' \<and>
    position w' = (position w + 1) mod length (all_buckets w) \<and>
    position w' < length (all_buckets w) \<and>
    all_buckets w' = (all_buckets w)[position w' := b] \<and>
    current w' = Some b \<and> lastAccess w' = t2 \<and> bucketTime w' = bucketTime w"
proof -
  from l obtain g where g: "buckets w = Some g" and wf: "wf_ring g"
    by (auto simp: live_Some)
  note wfn = wf_ring_Next [OF wf]
  from wfn have lt: "(cur g + 1) mod length (nodes g) < length (nodes g)"
    by (simp add: wf_ring_def)
  note v = view_live(1,2) [OF g]
  from c show ?thesis
  proof
    assume "c = CallFail t1 t2 \<and> b = \<lparr>failure = 1, success = 0\<rparr>"
    then show ?thesis
      using r lt by (simp add: Fail_eq [OF g wf] view_write [OF wfn] v)
  next
    assume "c = CallSuccess t1 t2 \<and> b = \<lparr>failure = 0, success = 1\<rparr>"
    then show ?thesis
      using r lt by (simp add: Success_eq [OF g wf] view_write [OF wfn] v)
  qed
qed

text \<open>
  C10. When a write rotates, the bucket rotated into is reset before the increment.
  A rotating \<^verbatim>\<open>Fail\<close> on a window with a ring returns normally; the pointer is one step
  further (wrapping), the bucket it now points at holds one failure and no success
  whatever it held before, and every other bucket is as it was. So \<^verbatim>\<open>Failures\<close> has
  lost the failures of the bucket rotated into and gained one, and \<^verbatim>\<open>Successes\<close> has
  lost its successes; \<open>lastAccess\<close> is the new clock reading. A rotating \<^verbatim>\<open>Success\<close> is
  the same with one success and no failure. And there is a window on which one \<^verbatim>\<open>Fail\<close>
  makes \<^verbatim>\<open>Failures\<close>, \<^verbatim>\<open>Successes\<close> and their sum all strictly smaller (the example
  window, written to at 7 s: the bucket at index 0 with two failures and one success
  is cleared), so the totals are not monotone across writes.
\<close>

theorem rotating_write_resets_first:
  "(\<forall>w t1 t2. live w \<and> bucketTime w <s time_Since t1 (lastAccess w) \<longrightarrow>
      (\<exists>w'. Fail t1 t2 w = Inr w' \<and>
         position w' = (position w + 1) mod length (all_buckets w) \<and>
         all_buckets w' = (all_buckets w)[position w' := \<lparr>failure = 1, success = 0\<rparr>] \<and>
         current w' = Some \<lparr>failure = 1, success = 0\<rparr> \<and>
         lastAccess w' = t2 \<and> bucketTime w' = bucketTime w \<and>
         Failures w' =
           Inr (sum_list (map failure (all_buckets w)) +
                (1 - failure (all_buckets w ! position w')), w') \<and>
         Successes w' =
           Inr (sum_list (map success (all_buckets w)) -
                success (all_buckets w ! position w'), w')) \<and>
      (\<exists>w'. Success t1 t2 w = Inr w' \<and>
         position w' = (position w + 1) mod length (all_buckets w) \<and>
         all_buckets w' = (all_buckets w)[position w' := \<lparr>failure = 0, success = 1\<rparr>] \<and>
         current w' = Some \<lparr>failure = 0, success = 1\<rparr> \<and>
         lastAccess w' = t2 \<and> bucketTime w' = bucketTime w \<and>
         Failures w' =
           Inr (sum_list (map failure (all_buckets w)) -
                failure (all_buckets w ! position w'), w') \<and>
         Successes w' =
           Inr (sum_list (map success (all_buckets w)) +
                (1 - success (all_buckets w ! position w')), w'))) \<and>
   (\<exists>w t1 t2 w' f s f' s'. live w \<and> Fail t1 t2 w = Inr w' \<and>
      Failures w = Inr (f, w) \<and> Successes w = Inr (s, w) \<and>
      Failures w' = Inr (f', w') \<and> Successes w' = Inr (s', w') \<and>
      sint f' < sint f \<and> sint s' < sint s \<and> sint (f' + s') < sint (f + s))"
proof (intro conjI allI impI)
  fix w t1 t2
  assume a: "live w \<and> bucketTime w <s time_Since t1 (lastAccess w)"
  then have l: "live w" and r: "bucketTime w <s time_Since t1 (lastAccess w)" by simp_all
  let ?b = "\<lparr>failure = 1, success = 0\<rparr> :: bucket"
  from rotating_write [OF l r, of "CallFail t1 t2" t2 ?b] obtain w' where
    1: "Fail t1 t2 w = Inr w'" and l': "live w'"
    and p: "position w' = (position w + 1) mod length (all_buckets w)"
    and lt: "position w' < length (all_buckets w)"
    and ab: "all_buckets w' = (all_buckets w)[position w' := ?b]"
    and rest: "current w' = Some ?b" "lastAccess w' = t2" "bucketTime w' = bucketTime w"
    by auto
  note wf' = live_wf_window [OF l']
  have "Failures w' =
      Inr (sum_list (map failure (all_buckets w)) + (1 - failure (all_buckets w ! position w')), w')"
    by (simp add: Failures_eq [OF wf'] ab sum_list_map_update [OF lt])
  moreover have "Successes w' =
      Inr (sum_list (map success (all_buckets w)) - success (all_buckets w ! position w'), w')"
    by (simp add: Successes_eq [OF wf'] ab sum_list_map_update [OF lt])
  ultimately show "\<exists>w'. Fail t1 t2 w = Inr w' \<and>
         position w' = (position w + 1) mod length (all_buckets w) \<and>
         all_buckets w' = (all_buckets w)[position w' := \<lparr>failure = 1, success = 0\<rparr>] \<and>
         current w' = Some \<lparr>failure = 1, success = 0\<rparr> \<and>
         lastAccess w' = t2 \<and> bucketTime w' = bucketTime w \<and>
         Failures w' =
           Inr (sum_list (map failure (all_buckets w)) +
                (1 - failure (all_buckets w ! position w')), w') \<and>
         Successes w' =
           Inr (sum_list (map success (all_buckets w)) -
                success (all_buckets w ! position w'), w')"
    using 1 p ab rest by blast
next
  fix w t1 t2
  assume a: "live w \<and> bucketTime w <s time_Since t1 (lastAccess w)"
  then have l: "live w" and r: "bucketTime w <s time_Since t1 (lastAccess w)" by simp_all
  let ?b = "\<lparr>failure = 0, success = 1\<rparr> :: bucket"
  from rotating_write [OF l r, of "CallSuccess t1 t2" t2 ?b] obtain w' where
    1: "Success t1 t2 w = Inr w'" and l': "live w'"
    and p: "position w' = (position w + 1) mod length (all_buckets w)"
    and lt: "position w' < length (all_buckets w)"
    and ab: "all_buckets w' = (all_buckets w)[position w' := ?b]"
    and rest: "current w' = Some ?b" "lastAccess w' = t2" "bucketTime w' = bucketTime w"
    by auto
  note wf' = live_wf_window [OF l']
  have "Failures w' =
      Inr (sum_list (map failure (all_buckets w)) - failure (all_buckets w ! position w'), w')"
    by (simp add: Failures_eq [OF wf'] ab sum_list_map_update [OF lt])
  moreover have "Successes w' =
      Inr (sum_list (map success (all_buckets w)) + (1 - success (all_buckets w ! position w')), w')"
    by (simp add: Successes_eq [OF wf'] ab sum_list_map_update [OF lt])
  ultimately show "\<exists>w'. Success t1 t2 w = Inr w' \<and>
         position w' = (position w + 1) mod length (all_buckets w) \<and>
         all_buckets w' = (all_buckets w)[position w' := \<lparr>failure = 0, success = 1\<rparr>] \<and>
         current w' = Some \<lparr>failure = 0, success = 1\<rparr> \<and>
         lastAccess w' = t2 \<and> bucketTime w' = bucketTime w \<and>
         Failures w' =
           Inr (sum_list (map failure (all_buckets w)) -
                failure (all_buckets w ! position w'), w') \<and>
         Successes w' =
           Inr (sum_list (map success (all_buckets w)) +
                (1 - success (all_buckets w ! position w')), w')"
    using 1 p ab rest by blast
next
  let ?w' = "\<lparr>buckets = Some \<lparr>nodes = [Some \<lparr>failure = 1, success = 0\<rparr>,
                                   Some \<lparr>failure = 0, success = 3\<rparr>,
                                   Some \<lparr>failure = 1, success = 0\<rparr>], cur = 0\<rparr>,
          bucketTime = 1000000000, lastAccess = 7000000000\<rparr>"
  have 1: "Fail 7000000000 7000000000 example_window = Inr ?w'" by code_simp
  have 2: "Failures example_window = Inr (3, example_window)"
    "Successes example_window = Inr (4, example_window)"
    by (simp_all add: Failures_eq Successes_eq live_wf_window [OF live_example_window])
      (simp_all add: example_window_def all_buckets_def)
  have "wf_window ?w'" by (simp add: wf_window_def wf_ring_def)
  then have 3: "Failures ?w' = Inr (2, ?w')" "Successes ?w' = Inr (3, ?w')"
    by (simp_all add: Failures_eq Successes_eq) (simp_all add: all_buckets_def)
  have 4: "sint (2 :: int64) < sint (3 :: int64)" "sint (3 :: int64) < sint (4 :: int64)"
    "sint (2 + 3 :: int64) < sint (3 + 4 :: int64)" by simp_all
  show "\<exists>w t1 t2 w' f s f' s'. live w \<and> Fail t1 t2 w = Inr w' \<and>
      Failures w = Inr (f, w) \<and> Successes w = Inr (s, w) \<and>
      Failures w' = Inr (f', w') \<and> Successes w' = Inr (s', w') \<and>
      sint f' < sint f \<and> sint s' < sint s \<and> sint (f' + s') < sint (f + s)"
    using live_example_window 1 2 3 4 by blast
qed

text \<open>
  The first part of the theorem at the example window, written to at 7 s: the pointer
  goes from index 2 to index 0, the bucket there goes from two failures and one success
  to one failure, the buckets at index 1 and 2 stay, and the totals go from 3 and 4 to
  2 and 3.
\<close>

theorem rotating_write_resets_first_witness:
  "live example_window \<and>
   bucketTime example_window <s time_Since 7000000000 (lastAccess example_window) \<and>
   (\<exists>w'. Fail 7000000000 7000000000 example_window = Inr w' \<and>
      position w' = 0 \<and>
      all_buckets w' = [\<lparr>failure = 1, success = 0\<rparr>, \<lparr>failure = 0, success = 3\<rparr>,
                        \<lparr>failure = 1, success = 0\<rparr>] \<and>
      current w' = Some \<lparr>failure = 1, success = 0\<rparr> \<and>
      lastAccess w' = 7000000000 \<and>
      Failures w' = Inr (2, w') \<and> Successes w' = Inr (3, w'))"
proof -
  have h: "live example_window" by (rule live_example_window)
  have r: "bucketTime example_window <s time_Since 7000000000 (lastAccess example_window)"
    by (simp add: word_sless_alt time_Since_def sint_time_Sub) (simp add: example_window_def)
  have v: "position example_window = 2"
    "all_buckets example_window =
       [\<lparr>failure = 2, success = 1\<rparr>, \<lparr>failure = 0, success = 3\<rparr>, \<lparr>failure = 1, success = 0\<rparr>]"
    by (simp_all add: example_window_def position_def all_buckets_def)
  from rotating_write_resets_first h r obtain w' where
    1: "Fail 7000000000 7000000000 example_window = Inr w'"
    and p: "position w' = (position example_window + 1) mod length (all_buckets example_window)"
    and ab: "all_buckets w' =
        (all_buckets example_window)[position w' := \<lparr>failure = 1, success = 0\<rparr>]"
    and c: "current w' = Some \<lparr>failure = 1, success = 0\<rparr>"
    and la: "lastAccess w' = 7000000000"
    and F: "Failures w' =
           Inr (sum_list (map failure (all_buckets example_window)) +
                (1 - failure (all_buckets example_window ! position w')), w')"
    and S: "Successes w' =
           Inr (sum_list (map success (all_buckets example_window)) -
                success (all_buckets example_window ! position w'), w')"
    by blast
  from p have p0: "position w' = 0" by (simp add: v)
  from ab have ab0: "all_buckets w' =
      [\<lparr>failure = 1, success = 0\<rparr>, \<lparr>failure = 0, success = 3\<rparr>, \<lparr>failure = 1, success = 0\<rparr>]"
    by (simp add: p0 v)
  from F have F0: "Failures w' = Inr (2, w')" by (simp add: p0 v)
  from S have S0: "Successes w' = Inr (3, w')" by (simp add: p0 v)
  from h r 1 p0 ab0 c la F0 S0 show ?thesis by blast
qed

subsection \<open>Writes that do not rotate\<close>

lemma no_rotation_in_span:
  assumes "in_span L D t" and "L \<le> la"
  shows "\<not> D <s time_Since t la"
proof -
  from assms have "t - la < sint D" by (simp add: in_span_def)
  moreover have "- (2 ^ 63) \<le> sint D" using sint_ge [of D] by simp
  ultimately have "\<not> sint D < max (- (2 ^ 63)) (min (2 ^ 63 - 1) (t - la))" by simp
  then show ?thesis unfolding word_sless_alt time_Since_def sint_time_Sub .
qed

lemma bucket_eta: "\<lparr>failure = failure b, success = success b\<rparr> = b"
  by (cases b) simp

lemma write_in_place:
  assumes l: "live w" and n: "\<not> bucketTime w <s time_Since t1 (lastAccess w)"
    and c: "c = CallFail t1 t2 \<or> c = CallSuccess t1 t2"
  shows "\<exists>w'. apply_call c w = Inr w' \<and> live w' \<and> position w' = position w \<and>
    bucketTime w' = bucketTime w \<and> lastAccess w' = t2 \<and>
    position w < length (all_buckets w) \<and>
    all_buckets w' = (all_buckets w)[position w :=
      (if is_CallFail c then bucket_Fail else bucket_Success) (all_buckets w ! position w)]"
proof -
  from l obtain g where g: "buckets w = Some g" and wf: "wf_ring g"
    by (auto simp: live_Some)
  from wf have cg: "cur g < length (nodes g)" by (simp add: wf_ring_def)
  note v = view_live(1,2) [OF g]
  from c show ?thesis
  proof
    assume c: "c = CallFail t1 t2"
    show ?thesis
      unfolding c apply_call.simps Fail_eq [OF g wf]
      using n cg by (simp add: view_write [OF wf] v)
  next
    assume c: "c = CallSuccess t1 t2"
    show ?thesis
      unfolding c apply_call.simps Success_eq [OF g wf]
      using n cg by (simp add: view_write [OF wf] v)
  qed
qed

lemma run_in_span:
  assumes "live w" and "L \<le> lastAccess w"
    and "list_all (write_in_span L (bucketTime w)) cs"
  shows "\<exists>w'. run cs w = Inr w' \<and> live w' \<and> position w' = position w \<and>
    position w < length (all_buckets w) \<and>
    all_buckets w' = (all_buckets w)[position w :=
      \<lparr>failure = failure (all_buckets w ! position w) + of_nat (length (filter is_CallFail cs)),
       success = success (all_buckets w ! position w) + of_nat (length (filter is_CallSuccess cs))\<rparr>]"
  using assms
proof (induction cs arbitrary: w)
  case Nil
  from Nil.prems(1) obtain g where g: "buckets w = Some g" and wf: "wf_ring g"
    by (auto simp: live_Some)
  from wf have "cur g < length (nodes g)" by (simp add: wf_ring_def)
  then have "position w < length (all_buckets w)" by (simp add: view_live(1,2) [OF g])
  then show ?case using Nil.prems(1) by (simp add: bucket_eta)
next
  case (Cons c cs)
  from Cons.prems(3) have cin: "write_in_span L (bucketTime w) c"
    and rest: "list_all (write_in_span L (bucketTime w)) cs" by simp_all
  from cin obtain t1 t2 where c: "c = CallFail t1 t2 \<or> c = CallSuccess t1 t2"
    and s1: "in_span L (bucketTime w) t1" and s2: "in_span L (bucketTime w) t2"
    by (cases c) auto
  have n: "\<not> bucketTime w <s time_Since t1 (lastAccess w)"
    by (rule no_rotation_in_span [OF s1 Cons.prems(2)])
  from write_in_place [OF Cons.prems(1) n c] obtain w1 where
    r1: "apply_call c w = Inr w1" and l1: "live w1" and p1: "position w1 = position w"
    and b1: "bucketTime w1 = bucketTime w" and a1: "lastAccess w1 = t2"
    and pl: "position w < length (all_buckets w)"
    and ab1: "all_buckets w1 = (all_buckets w)[position w :=
      (if is_CallFail c then bucket_Fail else bucket_Success) (all_buckets w ! position w)]"
    by blast
  have L1: "L \<le> lastAccess w1" using s2 a1 by (simp add: in_span_def)
  from Cons.IH [OF l1 L1] rest b1 obtain w' where
    r: "run cs w1 = Inr w'" and l': "live w'" and p': "position w' = position w1"
    and ab': "all_buckets w' = (all_buckets w1)[position w1 :=
      \<lparr>failure = failure (all_buckets w1 ! position w1) + of_nat (length (filter is_CallFail cs)),
       success = success (all_buckets w1 ! position w1) + of_nat (length (filter is_CallSuccess cs))\<rparr>]"
    by auto
  have "run (c # cs) w = Inr w'" using r1 r by simp
  moreover have "all_buckets w' = (all_buckets w)[position w :=
      \<lparr>failure = failure (all_buckets w ! position w) + of_nat (length (filter is_CallFail (c # cs))),
       success = success (all_buckets w ! position w) + of_nat (length (filter is_CallSuccess (c # cs)))\<rparr>]"
    using c pl unfolding ab' p1 ab1
    by (auto simp: bucket_Fail_def bucket_Success_def add.assoc)
  ultimately show ?case using l' p' p1 pl by simp
qed

lemma writes_count:
  "list_all (write_in_span L D) cs \<Longrightarrow>
   length (filter is_CallFail cs) + length (filter is_CallSuccess cs) = length cs"
proof (induction cs)
  case Nil
  then show ?case by simp
next
  case (Cons c cs)
  then show ?case by (cases c) simp_all
qed

lemma NewWindow_fresh_window: "NewWindow 2000000000 2 0 = Inr fresh_window"
  by code_simp

lemma live_fresh_window: "live fresh_window"
  by (simp add: fresh_window_def live_def wf_ring_def)

text \<open>
  C6, as amended. Let \<open>cs\<close> be any sequence of \<^verbatim>\<open>Fail\<close> and \<^verbatim>\<open>Success\<close> calls on a window
  with a ring, all of whose clock readings lie in the span that starts at the window's
  last access and is shorter than one bucket time. Then the run returns normally, the
  pointer does not move, every other bucket is untouched, and the current bucket has
  gained exactly the failures and the successes of \<open>cs\<close>: every increment lands in the
  same bucket. \<^verbatim>\<open>Failures() + Successes()\<close> has grown by the number of calls; it equals
  the number of calls when the window held no counts before the sequence.
\<close>

theorem writes_within_one_bucketTime:
  assumes "live w" and "list_all (write_in_span (lastAccess w) (bucketTime w)) cs"
  shows "\<exists>w' b b' f s f' s'. run cs w = Inr w' \<and>
    position w' = position w \<and>
    length (all_buckets w') = length (all_buckets w) \<and>
    (\<forall>i<length (all_buckets w). i \<noteq> position w \<longrightarrow> all_buckets w' ! i = all_buckets w ! i) \<and>
    current w = Some b \<and> current w' = Some b' \<and>
    failure b' = failure b + of_nat (length (filter is_CallFail cs)) \<and>
    success b' = success b + of_nat (length (filter is_CallSuccess cs)) \<and>
    Failures w = Inr (f, w) \<and> Successes w = Inr (s, w) \<and>
    Failures w' = Inr (f', w') \<and> Successes w' = Inr (s', w') \<and>
    f' + s' = f + s + of_nat (length cs) \<and>
    (f + s = 0 \<longrightarrow> f' + s' = of_nat (length cs))"
proof -
  let ?p = "position w"
  let ?b = "all_buckets w ! ?p"
  let ?b' = "\<lparr>failure = failure ?b + of_nat (length (filter is_CallFail cs)),
       success = success ?b + of_nat (length (filter is_CallSuccess cs))\<rparr>"
  from run_in_span [OF assms(1) order_refl assms(2)] obtain w' where
    r: "run cs w = Inr w'" and l': "live w'" and p': "position w' = ?p"
    and pl: "?p < length (all_buckets w)"
    and ab': "all_buckets w' = (all_buckets w)[?p := ?b']"
    by blast
  have cur_of: "current v = Some (all_buckets v ! position v)" if "live v" for v
  proof -
    from that obtain g where g: "buckets v = Some g" and wf: "wf_ring g"
      by (auto simp: live_Some)
    from wf have "cur g < length (nodes g)" by (simp add: wf_ring_def)
    then show ?thesis using current_live [OF g wf] by (simp add: view_live(1,2) [OF g])
  qed
  have c: "current w = Some ?b" by (rule cur_of [OF assms(1)])
  have c': "current w' = Some ?b'" using cur_of [OF l'] pl by (simp add: p' ab')
  have others: "\<forall>i<length (all_buckets w). i \<noteq> ?p \<longrightarrow> all_buckets w' ! i = all_buckets w ! i"
    by (simp add: ab')
  note wf = live_wf_window [OF assms(1)] and wf' = live_wf_window [OF l']
  let ?f = "sum_list (map failure (all_buckets w))" and ?s = "sum_list (map success (all_buckets w))"
  let ?f' = "sum_list (map failure (all_buckets w'))" and ?s' = "sum_list (map success (all_buckets w'))"
  have f': "?f' = ?f + of_nat (length (filter is_CallFail cs))"
    unfolding ab' by (simp add: sum_list_map_update [OF pl])
  have s': "?s' = ?s + of_nat (length (filter is_CallSuccess cs))"
    unfolding ab' by (simp add: sum_list_map_update [OF pl])
  have "?f' + ?s' = ?f + ?s + of_nat (length (filter is_CallFail cs) + length (filter is_CallSuccess cs))"
    unfolding f' s' by simp
  then have tot: "?f' + ?s' = ?f + ?s + of_nat (length cs)"
    by (simp only: writes_count [OF assms(2)])
  have "run cs w = Inr w' \<and> position w' = ?p \<and>
    length (all_buckets w') = length (all_buckets w) \<and>
    (\<forall>i<length (all_buckets w). i \<noteq> ?p \<longrightarrow> all_buckets w' ! i = all_buckets w ! i) \<and>
    current w = Some ?b \<and> current w' = Some ?b' \<and>
    failure ?b' = failure ?b + of_nat (length (filter is_CallFail cs)) \<and>
    success ?b' = success ?b + of_nat (length (filter is_CallSuccess cs)) \<and>
    Failures w = Inr (?f, w) \<and> Successes w = Inr (?s, w) \<and>
    Failures w' = Inr (?f', w') \<and> Successes w' = Inr (?s', w') \<and>
    ?f' + ?s' = ?f + ?s + of_nat (length cs) \<and>
    (?f + ?s = 0 \<longrightarrow> ?f' + ?s' = of_nat (length cs))"
    using r p' others c c' tot
    by (simp add: ab' Failures_eq [OF wf] Successes_eq [OF wf] Failures_eq [OF wf'] Successes_eq [OF wf'])
  then show ?thesis by blast
qed

text \<open>
  C6 as stated fails on a window that already holds counts: the example window, last
  accessed at 5 s with three failures and four successes in its buckets, takes a
  \<^verbatim>\<open>Fail\<close> at 5.1 s and a \<^verbatim>\<open>Success\<close> at 5.2 s, both within one bucket time of its last
  access. Afterwards \<^verbatim>\<open>Failures\<close> is 4 and \<^verbatim>\<open>Successes\<close> is 5: a total of 9 after two
  calls.
\<close>

theorem total_after_writes_in_span_counterexample:
  "live example_window \<and>
   list_all (write_in_span (lastAccess example_window) (bucketTime example_window))
     [CallFail 5100000000 5100000000, CallSuccess 5200000000 5200000000] \<and>
   run [CallFail 5100000000 5100000000, CallSuccess 5200000000 5200000000] example_window =
     Inr \<lparr>buckets = Some \<lparr>nodes = [Some \<lparr>failure = 2, success = 1\<rparr>,
                                   Some \<lparr>failure = 0, success = 3\<rparr>,
                                   Some \<lparr>failure = 2, success = 1\<rparr>], cur = 2\<rparr>,
          bucketTime = 1000000000, lastAccess = 5200000000\<rparr> \<and>
   map_sum id fst (Failures
     \<lparr>buckets = Some \<lparr>nodes = [Some \<lparr>failure = 2, success = 1\<rparr>,
                               Some \<lparr>failure = 0, success = 3\<rparr>,
                               Some \<lparr>failure = 2, success = 1\<rparr>], cur = 2\<rparr>,
      bucketTime = 1000000000, lastAccess = 5200000000\<rparr>) = Inr 4 \<and>
   map_sum id fst (Successes
     \<lparr>buckets = Some \<lparr>nodes = [Some \<lparr>failure = 2, success = 1\<rparr>,
                               Some \<lparr>failure = 0, success = 3\<rparr>,
                               Some \<lparr>failure = 2, success = 1\<rparr>], cur = 2\<rparr>,
      bucketTime = 1000000000, lastAccess = 5200000000\<rparr>) = Inr 5 \<and>
   (4 + 5 :: int64) \<noteq>
     of_nat (length [CallFail 5100000000 5100000000, CallSuccess 5200000000 5200000000])"
proof -
  have sp: "list_all (write_in_span (lastAccess example_window) (bucketTime example_window))
     [CallFail 5100000000 5100000000, CallSuccess 5200000000 5200000000]"
    by (simp add: example_window_def in_span_def)
  have r: "run [CallFail 5100000000 5100000000, CallSuccess 5200000000 5200000000] example_window =
     Inr \<lparr>buckets = Some \<lparr>nodes = [Some \<lparr>failure = 2, success = 1\<rparr>,
                                   Some \<lparr>failure = 0, success = 3\<rparr>,
                                   Some \<lparr>failure = 2, success = 1\<rparr>], cur = 2\<rparr>,
          bucketTime = 1000000000, lastAccess = 5200000000\<rparr>"
    by code_simp
  have f: "map_sum id fst (Failures
     \<lparr>buckets = Some \<lparr>nodes = [Some \<lparr>failure = 2, success = 1\<rparr>,
                               Some \<lparr>failure = 0, success = 3\<rparr>,
                               Some \<lparr>failure = 2, success = 1\<rparr>], cur = 2\<rparr>,
      bucketTime = 1000000000, lastAccess = 5200000000\<rparr>) = Inr 4"
    by code_simp
  have s: "map_sum id fst (Successes
     \<lparr>buckets = Some \<lparr>nodes = [Some \<lparr>failure = 2, success = 1\<rparr>,
                               Some \<lparr>failure = 0, success = 3\<rparr>,
                               Some \<lparr>failure = 2, success = 1\<rparr>], cur = 2\<rparr>,
      bucketTime = 1000000000, lastAccess = 5200000000\<rparr>) = Inr 5"
    by code_simp
  have n: "(4 + 5 :: int64) \<noteq>
     of_nat (length [CallFail 5100000000 5100000000, CallSuccess 5200000000 5200000000])"
    by simp
  from live_example_window sp r f s n show ?thesis by blast
qed

text \<open>
  The amended statement at the example window, where the same two calls raise the
  total from 7 to 9 and the bucket at index 2 from one failure to two failures and
  one success, and at the fresh window of \<^verbatim>\<open>NewWindow(2s, 2)\<close>, where two failures and
  a success within the first second all land in the bucket at index 0 and the total
  is 3.
\<close>

theorem writes_within_one_bucketTime_witness:
  "live example_window \<and>
   list_all (write_in_span (lastAccess example_window) (bucketTime example_window))
     [CallFail 5100000000 5100000000, CallSuccess 5200000000 5200000000] \<and>
   (\<exists>w' f' s'. run [CallFail 5100000000 5100000000, CallSuccess 5200000000 5200000000]
                   example_window = Inr w' \<and>
      position w' = 2 \<and> current w' = Some \<lparr>failure = 2, success = 1\<rparr> \<and>
      all_buckets w' ! 0 = \<lparr>failure = 2, success = 1\<rparr> \<and>
      all_buckets w' ! 1 = \<lparr>failure = 0, success = 3\<rparr> \<and>
      Failures w' = Inr (f', w') \<and> Successes w' = Inr (s', w') \<and> f' + s' = 9) \<and>
   live fresh_window \<and>
   list_all (write_in_span (lastAccess fresh_window) (bucketTime fresh_window))
     [CallFail 100000000 100000001, CallSuccess 500000000 500000002,
      CallFail 999999998 999999999] \<and>
   (\<exists>w' f' s'. run [CallFail 100000000 100000001, CallSuccess 500000000 500000002,
                     CallFail 999999998 999999999] fresh_window = Inr w' \<and>
      position w' = 0 \<and> current w' = Some \<lparr>failure = 2, success = 1\<rparr> \<and>
      Failures w' = Inr (f', w') \<and> Successes w' = Inr (s', w') \<and> f' + s' = 3)"
proof -
  let ?ds = "[CallFail 5100000000 5100000000, CallSuccess 5200000000 5200000000]"
  have he: "live example_window" by (rule live_example_window)
  have spe: "list_all (write_in_span (lastAccess example_window) (bucketTime example_window)) ?ds"
    by (simp add: example_window_def in_span_def)
  have ze: "Failures example_window = Inr (3, example_window)"
    "Successes example_window = Inr (4, example_window)"
    by (simp_all add: Failures_eq Successes_eq live_wf_window [OF he])
      (simp_all add: example_window_def all_buckets_def)
  have ce: "current example_window = Some \<lparr>failure = 1, success = 0\<rparr>"
    "position example_window = 2"
    "all_buckets example_window ! 0 = \<lparr>failure = 2, success = 1\<rparr>"
    "all_buckets example_window ! 1 = \<lparr>failure = 0, success = 3\<rparr>"
    "length (all_buckets example_window) = 3"
    by (simp_all add: example_window_def current_def position_def ring_Value_def all_buckets_def)
  from writes_within_one_bucketTime [OF he spe] obtain w' b b' f s f' s' where
    r: "run ?ds example_window = Inr w'" and p: "position w' = position example_window"
    and o: "\<forall>i<length (all_buckets example_window). i \<noteq> position example_window \<longrightarrow>
        all_buckets w' ! i = all_buckets example_window ! i"
    and cb: "current example_window = Some b" and cb': "current w' = Some b'"
    and fb: "failure b' = failure b + of_nat (length (filter is_CallFail ?ds))"
    and sb: "success b' = success b + of_nat (length (filter is_CallSuccess ?ds))"
    and F: "Failures example_window = Inr (f, example_window)"
    and S: "Successes example_window = Inr (s, example_window)"
    and F': "Failures w' = Inr (f', w')" and S': "Successes w' = Inr (s', w')"
    and t: "f' + s' = f + s + of_nat (length ?ds)"
    by blast
  from F S ze have "f = 3" "s = 4" by simp_all
  with t have tot: "f' + s' = 9" by simp
  from cb ce have "b = \<lparr>failure = 1, success = 0\<rparr>" by simp
  with fb sb have "failure b' = 2" "success b' = 1" by simp_all
  then have b': "b' = \<lparr>failure = 2, success = 1\<rparr>" by (cases b') simp
  from o ce have o0: "all_buckets w' ! 0 = \<lparr>failure = 2, success = 1\<rparr>"
    and o1: "all_buckets w' ! 1 = \<lparr>failure = 0, success = 3\<rparr>" by simp_all
  have ex: "\<exists>w' f' s'. run ?ds example_window = Inr w' \<and>
      position w' = 2 \<and> current w' = Some \<lparr>failure = 2, success = 1\<rparr> \<and>
      all_buckets w' ! 0 = \<lparr>failure = 2, success = 1\<rparr> \<and>
      all_buckets w' ! 1 = \<lparr>failure = 0, success = 3\<rparr> \<and>
      Failures w' = Inr (f', w') \<and> Successes w' = Inr (s', w') \<and> f' + s' = 9"
    using r p ce(2) cb' b' o0 o1 F' S' tot by auto
  let ?cs = "[CallFail 100000000 100000001, CallSuccess 500000000 500000002,
      CallFail 999999998 999999999]"
  have h: "live fresh_window" by (rule live_fresh_window)
  have sp: "list_all (write_in_span (lastAccess fresh_window) (bucketTime fresh_window)) ?cs"
    by (simp add: fresh_window_def in_span_def)
  have z: "Failures fresh_window = Inr (0, fresh_window)"
    "Successes fresh_window = Inr (0, fresh_window)"
    by (simp_all add: Failures_eq Successes_eq live_wf_window [OF h])
      (simp_all add: fresh_window_def all_buckets_def new_bucket_def)
  have c: "current fresh_window = Some \<lparr>failure = 0, success = 0\<rparr>"
    "position fresh_window = 0"
    by (simp_all add: fresh_window_def current_def position_def ring_Value_def new_bucket_def)
  from writes_within_one_bucketTime [OF h sp] obtain v' d d' g u g' u' where
    r2: "run ?cs fresh_window = Inr v'" and p2: "position v' = position fresh_window"
    and cd: "current fresh_window = Some d" and cd': "current v' = Some d'"
    and fd: "failure d' = failure d + of_nat (length (filter is_CallFail ?cs))"
    and sd: "success d' = success d + of_nat (length (filter is_CallSuccess ?cs))"
    and G: "Failures fresh_window = Inr (g, fresh_window)"
    and U: "Successes fresh_window = Inr (u, fresh_window)"
    and G': "Failures v' = Inr (g', v')" and U': "Successes v' = Inr (u', v')"
    and t2: "g + u = 0 \<longrightarrow> g' + u' = of_nat (length ?cs)"
    by blast
  from G U z have "g + u = 0" by simp
  with t2 have tot2: "g' + u' = 3" by simp
  from cd c have "d = \<lparr>failure = 0, success = 0\<rparr>" by simp
  with fd sd have "failure d' = 2" "success d' = 1" by simp_all
  then have "d' = \<lparr>failure = 2, success = 1\<rparr>" by (cases d') simp
  with r2 p2 c cd' G' U' tot2 have fr: "\<exists>w' f' s'. run ?cs fresh_window = Inr w' \<and>
      position w' = 0 \<and> current w' = Some \<lparr>failure = 2, success = 1\<rparr> \<and>
      Failures w' = Inr (f', w') \<and> Successes w' = Inr (s', w') \<and> f' + s' = 3"
    by auto
  from he spe ex h sp fr show ?thesis by blast
qed

subsection \<open>Steady writes\<close>

text \<open>
  C5. The claim bounds the time covered by the sums by the length of the window,
  except while no writes occur. \<^verbatim>\<open>Fail\<close> and \<^verbatim>\<open>Success\<close> set \<open>lastAccess\<close> on every
  write, rotating or not, so writes that follow each other at less than one bucket
  time never rotate. On the window of \<^verbatim>\<open>NewWindow(2s, 2)\<close>, built at time 0, four
  failures 0.9 s apart all land in the bucket at index 0: at 3.6 s \<^verbatim>\<open>Failures\<close> still
  counts the failure of 0.9 s, an activity of 2.7 s in a window of 2 s, although a
  write occurred in every bucket time.
\<close>

theorem steady_writes_never_rotate:
  "NewWindow 2000000000 2 0 = Inr fresh_window \<and>
   run [CallFail 900000000 900000000, CallFail 1800000000 1800000000,
        CallFail 2700000000 2700000000, CallFail 3600000000 3600000000] fresh_window =
     Inr \<lparr>buckets = Some \<lparr>nodes = [Some \<lparr>failure = 4, success = 0\<rparr>, Some new_bucket], cur = 0\<rparr>,
          bucketTime = 1000000000, lastAccess = 3600000000\<rparr> \<and>
   map_sum id fst (Failures
     \<lparr>buckets = Some \<lparr>nodes = [Some \<lparr>failure = 4, success = 0\<rparr>, Some new_bucket], cur = 0\<rparr>,
      bucketTime = 1000000000, lastAccess = 3600000000\<rparr>) = Inr 4"
  by code_simp

section \<open>Construction\<close>

lemma nil_window:
  assumes "buckets w = None"
  shows "Failures w = Inr (0, w)" and "Successes w = Inr (0, w)" and "ErrorRate w = Inr (0, w)"
    and "Reset w = Inr w" and "Fail t1 t2 w = Inl NilDereference"
    and "Success t1 t2 w = Inl NilDereference"
proof -
  have wf: "wf_window w" using assms by (simp add: wf_window_def)
  have ab: "all_buckets w = []" using assms by (simp add: all_buckets_def)
  have "w\<lparr>buckets := None\<rparr> = w" using assms by (cases w) simp
  then show "Reset w = Inr w" using assms by (simp add: Reset_eq [OF wf])
  show "Failures w = Inr (0, w)" "Successes w = Inr (0, w)" "ErrorRate w = Inr (0, w)"
    by (simp_all add: Failures_eq [OF wf] Successes_eq [OF wf] ErrorRate_eq [OF wf] ab)
  show "Fail t1 t2 w = Inl NilDereference" "Success t1 t2 w = Inl NilDereference"
    using assms by (simp_all add: Fail_def Success_def)
qed

text \<open>
  C4, as amended. With a bucket count of 0 \<^verbatim>\<open>NewWindow\<close> panics (integer division by
  zero), at construction. With a negative bucket count it returns a window whose ring
  is \<^verbatim>\<open>nil\<close>: the reads return zero, \<^verbatim>\<open>Reset\<close> changes nothing, and every \<^verbatim>\<open>Fail\<close> and
  \<^verbatim>\<open>Success\<close> panics, so the failure shows at the first write. With a positive bucket
  count it returns a window with that many buckets on which every sequence of calls
  returns normally, and so does every read after it.
\<close>

theorem NewWindow_by_bucket_count:
  "(windowBuckets = 0 \<longrightarrow> NewWindow windowTime windowBuckets now = Inl DivideByZero) \<and>
   (sint windowBuckets < 0 \<longrightarrow>
      (\<exists>w. NewWindow windowTime windowBuckets now = Inr w \<and> buckets w = None \<and>
         Failures w = Inr (0, w) \<and> Successes w = Inr (0, w) \<and> ErrorRate w = Inr (0, w) \<and>
         Reset w = Inr w \<and>
         (\<forall>t1 t2. Fail t1 t2 w = Inl NilDereference \<and> Success t1 t2 w = Inl NilDereference))) \<and>
   (0 < sint windowBuckets \<longrightarrow>
      (\<exists>w. NewWindow windowTime windowBuckets now = Inr w \<and>
         length (all_buckets w) = nat (sint windowBuckets) \<and>
         (\<forall>cs. \<exists>w'. run cs w = Inr w') \<and>
         (\<forall>cs w'. run cs w = Inr w' \<longrightarrow>
            (\<exists>f s e. Failures w' = Inr (f, w') \<and> Successes w' = Inr (s, w') \<and>
               ErrorRate w' = Inr (e, w')))))"
proof (intro conjI impI)
  assume "windowBuckets = 0"
  then show "NewWindow windowTime windowBuckets now = Inl DivideByZero"
    by (simp add: NewWindow_zero)
next
  assume n: "sint windowBuckets < 0"
  let ?w = "\<lparr>buckets = None, bucketTime = word_of_int (sint windowTime sdiv sint windowBuckets),
             lastAccess = now\<rparr>"
  have "buckets ?w = None" by simp
  from nil_window [OF this] NewWindow_neg [OF n, of windowTime now]
  show "\<exists>w. NewWindow windowTime windowBuckets now = Inr w \<and> buckets w = None \<and>
         Failures w = Inr (0, w) \<and> Successes w = Inr (0, w) \<and> ErrorRate w = Inr (0, w) \<and>
         Reset w = Inr w \<and>
         (\<forall>t1 t2. Fail t1 t2 w = Inl NilDereference \<and> Success t1 t2 w = Inl NilDereference)"
    by simp
next
  assume p: "0 < sint windowBuckets"
  from NewWindow_live [OF p, of windowTime now] obtain w where
    w: "NewWindow windowTime windowBuckets now = Inr w" and l: "live w" by blast
  have len: "length (all_buckets w) = nat (sint windowBuckets)"
    using w by (auto simp: NewWindow_pos [OF p] all_buckets_def)
  have ok: "\<exists>w'. run cs w = Inr w'" for cs using run_live [OF l, of cs] by blast
  have rd: "\<exists>f s e. Failures w' = Inr (f, w') \<and> Successes w' = Inr (s, w') \<and>
               ErrorRate w' = Inr (e, w')" if "run cs w = Inr w'" for cs w'
  proof -
    from run_live [OF l, of cs] that have "live w'" by simp
    then have wf: "wf_window w'" by (rule live_wf_window)
    show ?thesis by (simp add: Failures_eq [OF wf] Successes_eq [OF wf] ErrorRate_eq [OF wf])
  qed
  from w len ok rd
  show "\<exists>w. NewWindow windowTime windowBuckets now = Inr w \<and>
         length (all_buckets w) = nat (sint windowBuckets) \<and>
         (\<forall>cs. \<exists>w'. run cs w = Inr w') \<and>
         (\<forall>cs w'. run cs w = Inr w' \<longrightarrow>
            (\<exists>f s e. Failures w' = Inr (f, w') \<and> Successes w' = Inr (s, w') \<and>
               ErrorRate w' = Inr (e, w')))"
    by blast
qed

text \<open>
  C4 as stated fails for a negative bucket count: \<^verbatim>\<open>NewWindow(10s, -3)\<close> returns a
  window, and the panic comes with the first \<^verbatim>\<open>Fail\<close>.
\<close>

theorem negative_bucket_count_counterexample:
  "NewWindow 10000000000 (- 3) 0 =
     Inr \<lparr>buckets = None, bucketTime = - 3333333333, lastAccess = 0\<rparr> \<and>
   Fail 1 1 \<lparr>buckets = None, bucketTime = - 3333333333, lastAccess = 0\<rparr> = Inl NilDereference"
  by code_simp

text \<open>The amended statement at the bucket counts 0, -3 and 2.\<close>

theorem NewWindow_by_bucket_count_witness:
  "NewWindow 2000000000 0 0 = Inl DivideByZero \<and>
   (\<exists>w. NewWindow 2000000000 (- 3) 0 = Inr w \<and> buckets w = None \<and>
      Fail 1 1 w = Inl NilDereference) \<and>
   (\<exists>w. NewWindow 2000000000 2 0 = Inr w \<and> length (all_buckets w) = 2 \<and>
      (\<exists>w'. run example_trace w = Inr w'))"
proof -
  have s: "sint (- 3 :: int64) < 0" "0 < sint (2 :: int64)" "nat (sint (2 :: int64)) = 2"
    by simp_all
  from NewWindow_by_bucket_count [of 0 2000000000 0]
  have a: "NewWindow 2000000000 0 0 = Inl DivideByZero" by simp
  from NewWindow_by_bucket_count [of "- 3" 2000000000 0] s(1)
  have b: "\<exists>w. NewWindow 2000000000 (- 3) 0 = Inr w \<and> buckets w = None \<and>
      Fail 1 1 w = Inl NilDereference" by blast
  from NewWindow_by_bucket_count [of 2 2000000000 0] s(2)
  have "\<exists>w. NewWindow 2000000000 2 0 = Inr w \<and> length (all_buckets w) = nat (sint (2 :: int64)) \<and>
      (\<forall>cs. \<exists>w'. run cs w = Inr w')" by blast
  then have c: "\<exists>w. NewWindow 2000000000 2 0 = Inr w \<and> length (all_buckets w) = 2 \<and>
      (\<exists>w'. run example_trace w = Inr w')" unfolding s(3) by blast
  from a b c show ?thesis by blast
qed

section \<open>The error rate\<close>

subsection \<open>Rounding to float64\<close>

lemma pow2_powi: "pow2 e = 2 powi e"
  by (simp add: pow2_def power_int_def inverse_eq_divide power_one_over)

lemma pow2_pos [simp]: "0 < pow2 e"
  by (simp add: pow2_powi)

lemma pow2_nonneg [simp]: "0 \<le> pow2 e"
  by (simp add: pow2_powi)

lemma pow2_nonzero [simp]: "pow2 e \<noteq> 0"
  by (simp add: pow2_powi)

lemma pow2_add: "pow2 (a + b) = pow2 a * pow2 b"
  by (simp add: pow2_powi power_int_add)

lemma pow2_diff: "pow2 (a - b) = pow2 a / pow2 b"
  by (simp add: pow2_powi power_int_diff)

lemma pow2_nat: "0 \<le> e \<Longrightarrow> pow2 e = 2 ^ nat e"
  by (simp add: pow2_def)

lemma pow2_mono: "a \<le> b \<Longrightarrow> pow2 a \<le> pow2 b"
  by (simp add: pow2_powi power_int_increasing)

lemma bitlen_rat_bounds:
  assumes "0 < p"
  shows "pow2 (bitlen p - 1) \<le> of_int p" and "of_int p < pow2 (bitlen p)"
proof -
  from assms have b: "1 \<le> bitlen p" using bitlen_eq_zero_iff [of p] bitlen_nonneg [of p]
    by (cases "bitlen p = 0") auto
  from bitlen_bounds [OF assms] have 1: "2 ^ nat (bitlen p - 1) \<le> p" and 2: "p < 2 ^ nat (bitlen p)"
    by simp_all
  from 1 have "(of_int (2 ^ nat (bitlen p - 1)) :: rat) \<le> of_int p" by (simp only: of_int_le_iff)
  then show "pow2 (bitlen p - 1) \<le> of_int p" using b by (simp add: pow2_nat)
  from 2 have "(of_int p :: rat) < of_int (2 ^ nat (bitlen p))" by (simp only: of_int_less_iff)
  then show "of_int p < pow2 (bitlen p)" using b by (simp add: pow2_nat)
qed

lemma floor_log2_bounds:
  assumes "0 < x"
  shows "pow2 (floor_log2 x) \<le> x" and "x < pow2 (floor_log2 x + 1)"
proof -
  obtain p q where pq: "quotient_of x = (p, q)" by (cases "quotient_of x")
  then have q: "0 < q" and x: "x = of_int p / of_int q"
    by (rule quotient_of_denom_pos, rule quotient_of_div)
  from assms q x have p: "0 < p" by (simp add: zero_less_divide_iff)
  let ?l = "bitlen p - bitlen q"
  have fl: "floor_log2 x = (if pow2 ?l \<le> x then ?l else ?l - 1)"
    by (simp add: floor_log2_def pq Let_def)
  note bp = bitlen_rat_bounds [OF p] and bq = bitlen_rat_bounds [OF q]
  have lo: "pow2 (?l - 1) \<le> x"
  proof -
    have "pow2 (?l - 1) = pow2 (bitlen p - 1) / pow2 (bitlen q)"
      using pow2_diff [of "bitlen p - 1" "bitlen q"] by (simp add: algebra_simps)
    also have "\<dots> \<le> of_int p / of_int q"
      using bp(1) bq(2) p q by (intro frac_le) simp_all
    finally show ?thesis by (simp add: x)
  qed
  have hi: "x < pow2 (?l + 1)"
  proof -
    have "of_int p / of_int q < pow2 (bitlen p) / pow2 (bitlen q - 1)"
      using bp(2) bq(1) p by (intro frac_less) simp_all
    also have "\<dots> = pow2 (?l + 1)"
      using pow2_diff [of "bitlen p" "bitlen q - 1"] by (simp add: algebra_simps)
    finally show ?thesis by (simp add: x)
  qed
  show "pow2 (floor_log2 x) \<le> x" using lo by (simp add: fl)
  show "x < pow2 (floor_log2 x + 1)" using hi by (simp add: fl not_le)
qed

lemma round_to_even_err: "\<bar>of_int (round_to_even x) - x\<bar> \<le> 1 / 2"
proof -
  define n where "n = \<lfloor>x\<rfloor>"
  define d where "d = x - of_int n"
  have d: "0 \<le> d" "d < 1" unfolding d_def n_def by linarith+
  have x: "x = of_int n + d" by (simp add: d_def)
  have r: "round_to_even x =
    (if d < 1 / 2 then n else if 1 / 2 < d then n + 1 else if even n then n else n + 1)"
    by (simp only: round_to_even_def Let_def n_def [symmetric] d_def [symmetric])
  have c: "\<bar>of_int k - x\<bar> \<le> 1 / 2" if "k = n \<and> d \<le> 1 / 2 \<or> k = n + 1 \<and> 1 / 2 \<le> d" for k
    using that d by (auto simp: x)
  show ?thesis by (rule c) (simp add: r)
qed

lemma round_to_even_of_int [simp]: "round_to_even (of_int k) = k"
  by (simp add: round_to_even_def)

lemma f64_round_err: "\<bar>f64_round x - x\<bar> \<le> \<bar>x\<bar> / 2 ^ 53"
proof (cases "x = 0")
  case True
  then show ?thesis by (simp add: f64_round_def)
next
  case False
  then have ax: "0 < \<bar>x\<bar>" by simp
  let ?e = "floor_log2 \<bar>x\<bar> - 52"
  let ?n = "round_to_even (x / pow2 ?e)"
  have r: "f64_round x = of_int ?n * pow2 ?e" using False by (simp add: f64_round_def Let_def)
  have "f64_round x - x = (of_int ?n - x / pow2 ?e) * pow2 ?e"
    by (simp add: r algebra_simps)
  then have "\<bar>f64_round x - x\<bar> = \<bar>of_int ?n - x / pow2 ?e\<bar> * pow2 ?e"
    by (simp only: abs_mult abs_of_pos [OF pow2_pos])
  also have "\<dots> \<le> 1 / 2 * pow2 ?e"
    by (intro mult_right_mono round_to_even_err) simp
  also have "\<dots> = pow2 (floor_log2 \<bar>x\<bar>) / 2 ^ 53"
    using pow2_diff [of "floor_log2 \<bar>x\<bar>" 52] by (simp add: pow2_def)
  also have "\<dots> \<le> \<bar>x\<bar> / 2 ^ 53"
    using floor_log2_bounds(1) [OF ax] by (simp add: divide_right_mono)
  finally show ?thesis .
qed

lemma f64_round_int:
  assumes "\<bar>n\<bar> < 2 ^ 53"
  shows "f64_round (of_int n) = of_int n"
proof (cases "n = 0")
  case True
  then show ?thesis by (simp add: f64_round_def)
next
  case False
  let ?x = "of_int n :: rat"
  have ax: "0 < \<bar>?x\<bar>" using False by simp
  let ?e = "floor_log2 \<bar>?x\<bar> - 52"
  have "pow2 (floor_log2 \<bar>?x\<bar>) \<le> \<bar>?x\<bar>" by (rule floor_log2_bounds(1) [OF ax])
  also have "\<bar>?x\<bar> < pow2 53"
  proof -
    from assms have "(of_int \<bar>n\<bar> :: rat) < of_int (2 ^ 53)" by (simp only: of_int_less_iff)
    then show ?thesis by (simp add: pow2_def)
  qed
  finally have "pow2 (floor_log2 \<bar>?x\<bar>) < pow2 53" .
  have "floor_log2 \<bar>?x\<bar> < 53"
  proof (rule ccontr)
    assume "\<not> floor_log2 \<bar>?x\<bar> < 53"
    then have "pow2 53 \<le> pow2 (floor_log2 \<bar>?x\<bar>)" by (intro pow2_mono) simp
    with \<open>pow2 (floor_log2 \<bar>?x\<bar>) < pow2 53\<close> show False by simp
  qed
  then have e: "?e \<le> 0" by simp
  then have "pow2 ?e = 1 / 2 ^ nat (- ?e)"
    by (cases "?e = 0") (simp_all add: pow2_def)
  then have "?x / pow2 ?e = of_int (n * 2 ^ nat (- ?e))" by simp
  then have "round_to_even (?x / pow2 ?e) = n * 2 ^ nat (- ?e)"
    by (simp only: round_to_even_of_int)
  then have "of_int (round_to_even (?x / pow2 ?e)) * pow2 ?e = ?x"
    using \<open>pow2 ?e = 1 / 2 ^ nat (- ?e)\<close> by simp
  then show ?thesis using False by (simp add: f64_round_def Let_def)
qed

subsection \<open>ErrorRate\<close>

lemma sint_add_small:
  fixes a b :: int64
  assumes "0 \<le> sint a" and "0 \<le> sint b" and "sint a + sint b < 2 ^ 53"
  shows "sint (a + b) = sint a + sint b"
proof -
  have "- (2 ^ 63) \<le> sint a + sint b" using assms by simp
  moreover have "sint a + sint b < 2 ^ 63" using assms(3) by simp
  ultimately have "signed_take_bit 63 (sint a + sint b) = sint a + sint b"
    by (rule signed_take_bit_int_eq_self)
  then show ?thesis by (simp add: sint_word_ariths)
qed

lemma f64_quotient_err:
  fixes f s :: int64
  assumes "0 \<le> sint f" and "0 \<le> sint s" and "0 < sint f + sint s"
    and "sint f + sint s < 2 ^ 53"
  shows "\<bar>f64_div (f64_of_int64 f) (f64_of_int64 (f + s)) -
           of_int (sint f) / of_int (sint f + sint s)\<bar>
         \<le> of_int (sint f) / of_int (sint f + sint s) / 2 ^ 53"
proof -
  have t: "sint (f + s) = sint f + sint s" by (rule sint_add_small) (use assms in simp_all)
  have "\<bar>sint f\<bar> < 2 ^ 53" using assms by simp
  then have a: "f64_of_int64 f = of_int (sint f)"
    unfolding f64_of_int64_def by (rule f64_round_int)
  have "\<bar>sint (f + s)\<bar> < 2 ^ 53" using assms t by simp
  then have "f64_of_int64 (f + s) = of_int (sint (f + s))"
    unfolding f64_of_int64_def by (rule f64_round_int)
  then have b: "f64_of_int64 (f + s) = of_int (sint f + sint s)" by (simp only: t)
  let ?q = "of_int (sint f) / of_int (sint f + sint s) :: rat"
  have "0 \<le> sint f + sint s" using assms by simp
  then have "(0 :: rat) \<le> of_int (sint f + sint s)" by (simp only: of_int_0_le_iff)
  moreover have "(0 :: rat) \<le> of_int (sint f)" using assms(1) by (simp only: of_int_0_le_iff)
  ultimately have q: "0 \<le> ?q" by (rule divide_nonneg_nonneg [rotated])
  have "\<bar>f64_round ?q - ?q\<bar> \<le> \<bar>?q\<bar> / 2 ^ 53" by (rule f64_round_err)
  then show ?thesis using q unfolding f64_div_def a b by (simp only: abs_of_nonneg)
qed

text \<open>
  C1. On every well-formed window \<^verbatim>\<open>ErrorRate\<close> returns normally. With \<open>f\<close> and \<open>s\<close> the
  results of \<^verbatim>\<open>Failures\<close> and \<^verbatim>\<open>Successes\<close>, the sums of the counters of all buckets of
  the ring, its result is exactly 0 when \<open>f + s\<close> is zero, and otherwise the \<^verbatim>\<open>float64\<close>
  quotient of \<^verbatim>\<open>float64(f)\<close> by \<^verbatim>\<open>float64(f + s)\<close>. When the counts are not negative and
  their sum is below \<open>2\<^sup>5\<^sup>3\<close>, that quotient differs from the exact rational
  \<open>f / (f + s)\<close> by at most the relative error \<open>2\<^sup>-\<^sup>5\<^sup>3\<close> of one rounding.
\<close>

theorem ErrorRate_is_failures_over_total:
  assumes "wf_window w"
  shows "\<exists>f s rate. Failures w = Inr (f, w) \<and> Successes w = Inr (s, w) \<and>
    ErrorRate w = Inr (rate, w) \<and>
    f = sum_list (map failure (all_buckets w)) \<and>
    s = sum_list (map success (all_buckets w)) \<and>
    rate = (if f + s = 0 then 0 else f64_div (f64_of_int64 f) (f64_of_int64 (f + s))) \<and>
    (0 \<le> sint f \<and> 0 \<le> sint s \<and> 0 < sint f + sint s \<and> sint f + sint s < 2 ^ 53 \<longrightarrow>
       \<bar>rate - of_int (sint f) / of_int (sint f + sint s)\<bar>
         \<le> of_int (sint f) / of_int (sint f + sint s) / 2 ^ 53)"
proof -
  let ?f = "sum_list (map failure (all_buckets w))"
  let ?s = "sum_list (map success (all_buckets w))"
  let ?rate = "if ?f + ?s = 0 then 0 else f64_div (f64_of_int64 ?f) (f64_of_int64 (?f + ?s))"
  have e: "ErrorRate w = Inr (?rate, w)" by (simp add: ErrorRate_eq [OF assms] Let_def)
  have acc: "\<bar>?rate - of_int (sint ?f) / of_int (sint ?f + sint ?s)\<bar>
         \<le> of_int (sint ?f) / of_int (sint ?f + sint ?s) / 2 ^ 53"
    if h: "0 \<le> sint ?f \<and> 0 \<le> sint ?s \<and> 0 < sint ?f + sint ?s \<and> sint ?f + sint ?s < 2 ^ 53"
  proof -
    from h have "sint (?f + ?s) = sint ?f + sint ?s" by (intro sint_add_small) simp_all
    with h have "sint (?f + ?s) \<noteq> 0" by simp
    then have "?f + ?s \<noteq> 0" by auto
    then show ?thesis using f64_quotient_err [of ?f ?s] h by simp
  qed
  show ?thesis
    using Failures_eq [OF assms] Successes_eq [OF assms] e acc by blast
qed

text \<open>
  The theorem at the example window: three failures of seven events, and the
  \<^verbatim>\<open>float64\<close> nearest to 3/7.
\<close>

theorem ErrorRate_is_failures_over_total_witness:
  "wf_window example_window \<and>
   (\<exists>f s rate. Failures example_window = Inr (f, example_window) \<and>
      Successes example_window = Inr (s, example_window) \<and>
      ErrorRate example_window = Inr (rate, example_window) \<and>
      f = 3 \<and> s = 4 \<and> rate = 7720456504063707 / 18014398509481984 \<and>
      \<bar>rate - 3 / 7\<bar> \<le> 3 / 7 / 2 ^ 53)"
proof -
  have h: "wf_window example_window"
    by (rule live_wf_window [OF live_example_window])
  have v: "sum_list (map failure (all_buckets example_window)) = 3"
    "sum_list (map success (all_buckets example_window)) = 4"
    by (simp_all add: example_window_def all_buckets_def)
  have q: "f64_div (f64_of_int64 3) (f64_of_int64 7) = 7720456504063707 / 18014398509481984"
    by code_simp
  from ErrorRate_is_failures_over_total [OF h] obtain f s rate where
    r: "Failures example_window = Inr (f, example_window)"
      "Successes example_window = Inr (s, example_window)"
      "ErrorRate example_window = Inr (rate, example_window)"
    and f: "f = 3" and s: "s = 4"
    and rate: "rate = (if f + s = 0 then 0 else f64_div (f64_of_int64 f) (f64_of_int64 (f + s)))"
    and acc: "0 \<le> sint f \<and> 0 \<le> sint s \<and> 0 < sint f + sint s \<and> sint f + sint s < 2 ^ 53 \<longrightarrow>
       \<bar>rate - of_int (sint f) / of_int (sint f + sint s)\<bar>
         \<le> of_int (sint f) / of_int (sint f + sint s) / 2 ^ 53"
    unfolding v by blast
  have rv: "rate = 7720456504063707 / 18014398509481984"
    using rate q by (simp add: f s)
  have "\<bar>rate - 3 / 7\<bar> \<le> 3 / 7 / 2 ^ 53" using acc by (simp add: f s)
  with h r f s rv show ?thesis by blast
qed

end
